theory Spec2Isabelle
  imports Complex_Main
begin

section \<open>Configuration (gameOptions) and constants\<close>

definition gridSize :: nat where
  "gridSize = 7"

definition colors :: int where
  "colors = 6"

definition tileSize :: int where
  "tileSize = 100"

definition swapSpeed :: int where
  "swapSpeed = 200"

definition fallSpeed :: int where
  "fallSpeed = 100"

definition destroySpeed :: int where
  "destroySpeed = 200"

definition HORIZONTAL :: int where
  "HORIZONTAL = 1"

definition VERTICAL :: int where
  "VERTICAL = 2"

section \<open>Data model\<close>

text \<open>
  Tiles and sprites are JavaScript objects that the scene shares by reference
  (\<open>selectedTile\<close> and the tween closures alias cells of \<open>tileArray\<close>), so both live in
  explicit stores indexed by object identity; \<open>tileArray\<close> holds tile references.
  A sprite's position decides which row and column \<open>getTileRow\<close>/\<open>getTileCol\<close> report.
\<close>

record Tile =
  color :: int
  tileSprite :: nat
  isEmpty :: bool

record Sprite =
  sx :: int
  sy :: int
  frame :: int
  scaleXY :: real
  depth :: int
  visible :: bool
  alpha :: real

record Pointer =
  px :: real
  py :: real
  downX :: real
  downY :: real

text \<open>
  The completion callbacks the scene registers. \<open>SwapDone tile1 tile2 swapBack\<close> is the
  closure of \<open>tweenTile\<close>; \<open>DestroyDone c i j\<close> the closure of \<open>destroyMarkedTiles\<close> over the
  cell indices and the local counter \<open>destroyed\<close> (cell \<open>c\<close> of \<open>counters\<close>);
  \<open>ReplenishDone c\<close> the closure of \<open>replenishField\<close> over its local counter \<open>replenished\<close>.
\<close>

datatype callback =
    NoCallback
  | SwapDone nat nat bool
  | DestroyDone nat nat nat
  | ReplenishDone nat

record Tween =
  target :: nat
  toX :: "int option"
  toY :: "int option"
  toAlpha :: "real option"
  duration :: int
  onComplete :: callback

record Scene =
  canPick :: bool
  dragging :: bool
  tileArray :: "nat list list"
  poolArray :: "nat list"
  selectedTile :: "nat option"
  swappingTiles :: int
  removeMap :: "nat list list"
  tileHeap :: "nat \<Rightarrow> Tile"
  spriteHeap :: "nat \<Rightarrow> Sprite"
  nextTile :: nat
  nextSprite :: nat
  counters :: "nat \<Rightarrow> int"
  nextCounter :: nat
  tweens :: "Tween list"
  timers :: nat
  rng :: "nat \<Rightarrow> nat"
  rngPos :: nat
  warnings :: "string list"

section \<open>Grid lookup and the backward-looking match test\<close>

definition tileAt :: "Scene \<Rightarrow> int \<Rightarrow> int \<Rightarrow> nat option" where
  "tileAt s row col =
     (if row < 0 \<or> row \<ge> int gridSize \<or> col < 0 \<or> col \<ge> int gridSize then None
      else Some (tileArray s ! nat row ! nat col))"

definition sameColors :: "Scene \<Rightarrow> nat option list \<Rightarrow> bool" where
  "sameColors s tiles =
     (if list_ex (\<lambda>t. t = None) tiles then False
      else let cs = map (\<lambda>t. color (tileHeap s (the t))) tiles
           in list_all (\<lambda>c. c = hd cs) cs)"

definition isHorizontalMatch :: "Scene \<Rightarrow> int \<Rightarrow> int \<Rightarrow> bool" where
  "isHorizontalMatch s row col =
     sameColors s [tileAt s row col, tileAt s row (col - 1), tileAt s row (col - 2)]"

definition isVerticalMatch :: "Scene \<Rightarrow> int \<Rightarrow> int \<Rightarrow> bool" where
  "isVerticalMatch s row col =
     sameColors s [tileAt s row col, tileAt s (row - 1) col, tileAt s (row - 2) col]"

definition isMatch :: "Scene \<Rightarrow> int \<Rightarrow> int \<Rightarrow> bool" where
  "isMatch s row col = (isHorizontalMatch s row col \<or> isVerticalMatch s row col)"

definition matchInBoard :: "Scene \<Rightarrow> bool" where
  "matchInBoard s =
     list_ex (\<lambda>i. list_ex (\<lambda>j. isMatch s (int i) (int j)) [0..<gridSize]) [0..<gridSize]"

section \<open>The removal mask\<close>

definition bump :: "nat list list \<Rightarrow> nat \<Rightarrow> nat \<Rightarrow> nat list list" where
  "bump rm r c = rm[r := (rm ! r)[c := Suc (rm ! r ! c)]]"

definition markStreak :: "int \<Rightarrow> nat \<Rightarrow> nat \<Rightarrow> nat \<Rightarrow> nat list list \<Rightarrow> nat list list" where
  "markStreak direction i startStreak colorStreak rm =
     fold (\<lambda>k m. if direction = HORIZONTAL then bump m i (startStreak + k)
                  else bump m (startStreak + k) i)
       [0..<colorStreak] rm"

text \<open>
  The loop variables of one line of \<open>markMatches\<close>: the mask, \<open>colorStreak\<close>,
  \<open>currentColor\<close> and \<open>startStreak\<close>.
\<close>

type_synonym scan = "nat list list \<times> nat \<times> int \<times> nat"

definition scanTile :: "Scene \<Rightarrow> int \<Rightarrow> nat \<Rightarrow> nat \<Rightarrow> scan \<Rightarrow> scan" where
  "scanTile s direction i j st =
     (case st of (rm, colorStreak, currentColor, startStreak) \<Rightarrow>
        (case (if direction = HORIZONTAL then tileAt s (int i) (int j)
               else tileAt s (int j) (int i)) of
           None \<Rightarrow>
             ((if colorStreak \<ge> 3 then markStreak direction i startStreak colorStreak rm else rm),
              1, - 1, j + 1)
         | Some tile \<Rightarrow>
             (let colorToWatch = color (tileHeap s tile) in
              if colorToWatch = currentColor then (rm, colorStreak + 1, currentColor, startStreak)
              else ((if colorStreak \<ge> 3 then markStreak direction i startStreak colorStreak rm
                     else rm),
                    1, colorToWatch, j))))"

definition markLine :: "Scene \<Rightarrow> int \<Rightarrow> nat \<Rightarrow> nat list list \<Rightarrow> nat list list" where
  "markLine s direction i rm =
     (case fold (scanTile s direction i) [0..<gridSize] (rm, 1, - 1, 0) of
        (rm', colorStreak, currentColor, startStreak) \<Rightarrow>
          if colorStreak \<ge> 3 then markStreak direction i startStreak colorStreak rm' else rm')"

definition markMatches :: "int \<Rightarrow> Scene \<Rightarrow> Scene" where
  "markMatches direction s =
     s\<lparr>removeMap := fold (markLine s direction) [0..<gridSize] (removeMap s)\<rparr>"

definition resetRemoveMap :: "Scene \<Rightarrow> Scene" where
  "resetRemoveMap s = s\<lparr>removeMap := replicate gridSize (replicate gridSize 0)\<rparr>"

text \<open>The mask as \<open>handleMatches\<close> hands it to \<open>destroyMarkedTiles\<close>.\<close>

definition scanBoard :: "Scene \<Rightarrow> Scene" where
  "scanBoard s = markMatches VERTICAL (markMatches HORIZONTAL (resetRemoveMap s))"

section \<open>Random colours\<close>

text \<open>
  \<open>Phaser.Math.Between lo hi\<close> is a library call. It is modelled by its contract: the
  scene carries the stream \<open>rng\<close> of raw draws, and a draw is reduced into \<open>lo .. hi\<close>.
\<close>

definition Between :: "Scene \<Rightarrow> int \<Rightarrow> int \<Rightarrow> int" where
  "Between s lo hi = lo + int (rng s (rngPos s) mod nat (hi - lo + 1))"

definition nextRandom :: "Scene \<Rightarrow> Scene" where
  "nextRandom s = s\<lparr>rngPos := Suc (rngPos s)\<rparr>"

section \<open>Tweens and swapping\<close>

definition addTween :: "Tween \<Rightarrow> Scene \<Rightarrow> Scene" where
  "addTween tw s = s\<lparr>tweens := tweens s @ [tw]\<rparr>"

definition getTileRow :: "Scene \<Rightarrow> nat \<Rightarrow> int" where
  "getTileRow s tile = sy (spriteHeap s (tileSprite (tileHeap s tile))) div tileSize"

definition getTileCol :: "Scene \<Rightarrow> nat \<Rightarrow> int" where
  "getTileCol s tile = sx (spriteHeap s (tileSprite (tileHeap s tile))) div tileSize"

definition areTheSame :: "Scene \<Rightarrow> nat \<Rightarrow> nat \<Rightarrow> bool" where
  "areTheSame s tile1 tile2 =
     (getTileRow s tile1 = getTileRow s tile2 \<and> getTileCol s tile1 = getTileCol s tile2)"

definition areNext :: "Scene \<Rightarrow> nat \<Rightarrow> nat \<Rightarrow> bool" where
  "areNext s tile1 tile2 =
     (\<bar>getTileRow s tile1 - getTileRow s tile2\<bar> + \<bar>getTileCol s tile1 - getTileCol s tile2\<bar> = 1)"

text \<open>
  \<open>this.tileArray[row][col]\<close> with indices computed from a sprite position: outside the
  array the access yields \<open>undefined\<close> and the property access that follows throws a
  TypeError, which ends the handler; that is the result \<open>None\<close>.
\<close>

definition cellAt :: "Scene \<Rightarrow> int \<Rightarrow> int \<Rightarrow> nat option" where
  "cellAt s row col =
     (if 0 \<le> row \<and> nat row < length (tileArray s) \<and> 0 \<le> col
         \<and> nat col < length (tileArray s ! nat row)
      then Some (tileArray s ! nat row ! nat col) else None)"

definition setSprite :: "nat \<Rightarrow> (Sprite \<Rightarrow> Sprite) \<Rightarrow> Scene \<Rightarrow> Scene" where
  "setSprite sp f s = s\<lparr>spriteHeap := (spriteHeap s)(sp := f (spriteHeap s sp))\<rparr>"

definition setTile :: "nat \<Rightarrow> (Tile \<Rightarrow> Tile) \<Rightarrow> Scene \<Rightarrow> Scene" where
  "setTile t f s = s\<lparr>tileHeap := (tileHeap s)(t := f (tileHeap s t))\<rparr>"

definition tweenTile :: "Scene \<Rightarrow> nat \<Rightarrow> nat \<Rightarrow> bool \<Rightarrow> Scene option" where
  "tweenTile s tile1 tile2 swapBack =
     (let row = getTileRow s tile1; col = getTileCol s tile1 in
      case cellAt s row col of
        None \<Rightarrow> None
      | Some t \<Rightarrow>
          Some (addTween
            \<lparr>target = tileSprite (tileHeap s t),
             toX = Some (col * tileSize + tileSize div 2),
             toY = Some (row * tileSize + tileSize div 2),
             toAlpha = None, duration = swapSpeed,
             onComplete = SwapDone tile1 tile2 swapBack\<rparr> s))"

definition swapTiles :: "Scene \<Rightarrow> nat \<Rightarrow> nat \<Rightarrow> bool \<Rightarrow> Scene option" where
  "swapTiles s tile1 tile2 swapBack =
     (let s1 = s\<lparr>swappingTiles := 2, canPick := False\<rparr>;
          fromColor = color (tileHeap s1 tile1);
          fromSprite = tileSprite (tileHeap s1 tile1);
          toColor = color (tileHeap s1 tile2);
          toSprite = tileSprite (tileHeap s1 tile2);
          tile1Row = getTileRow s1 tile1;
          tile1Col = getTileCol s1 tile1;
          tile2Row = getTileRow s1 tile2;
          tile2Col = getTileCol s1 tile2
      in case cellAt s1 tile1Row tile1Col of
           None \<Rightarrow> None
         | Some a \<Rightarrow>
            (let s2 = setTile a (\<lambda>t. t\<lparr>color := toColor, tileSprite := toSprite\<rparr>) s1 in
             case cellAt s2 tile2Row tile2Col of
               None \<Rightarrow> None
             | Some b \<Rightarrow>
                (let s3 = setTile b (\<lambda>t. t\<lparr>color := fromColor, tileSprite := fromSprite\<rparr>) s2 in
                 case tweenTile s3 tile1 tile2 swapBack of
                   None \<Rightarrow> None
                 | Some s4 \<Rightarrow> tweenTile s4 tile2 tile1 swapBack)))"

section \<open>Compaction and refill\<close>

definition holesBelow :: "Scene \<Rightarrow> nat \<Rightarrow> nat \<Rightarrow> nat" where
  "holesBelow s row col =
     fold (\<lambda>i result. if isEmpty (tileHeap s (tileArray s ! i ! col)) then result + 1 else result)
       [row + 1..<gridSize] 0"

definition holesInCol :: "Scene \<Rightarrow> nat \<Rightarrow> nat" where
  "holesInCol s col =
     fold (\<lambda>i result. if isEmpty (tileHeap s (tileArray s ! i ! col)) then result + 1 else result)
       [0..<gridSize] 0"

definition newSprite :: "int \<Rightarrow> int \<Rightarrow> Sprite" where
  "newSprite x0 y0 =
     \<lparr>sx = x0, sy = y0, frame = 0, scaleXY = 1, depth = 0, visible = True, alpha = 1\<rparr>"

definition setCell :: "nat \<Rightarrow> nat \<Rightarrow> nat \<Rightarrow> Scene \<Rightarrow> Scene" where
  "setCell i j t s = s\<lparr>tileArray := (tileArray s)[i := (tileArray s ! i)[j := t]]\<rparr>"

text \<open>The body of the inner loop of \<open>onAfterTilesDestroyed\<close>, for the cell \<open>(i, j)\<close>.\<close>

definition fallTile :: "nat \<Rightarrow> nat \<Rightarrow> Scene \<Rightarrow> Scene" where
  "fallTile j i s =
     (if \<not> isEmpty (tileHeap s (tileArray s ! i ! j)) then
        (let fallTiles = holesBelow s i j in
         if fallTiles > 0 then
           (let tempTile = tileArray s ! i ! j;
                s1 = setCell (i + fallTiles) j tempTile s;
                sprite = tileSprite (tileHeap s1 tempTile);
                s2 = addTween
                  \<lparr>target = sprite, toX = None,
                   toY = Some (sy (spriteHeap s1 sprite) + int fallTiles * tileSize),
                   toAlpha = None, duration = fallSpeed * int fallTiles,
                   onComplete = NoCallback\<rparr> s1;
                emptySprite = nextSprite s2;
                emptyTile = nextTile s2;
                s3 = s2\<lparr>spriteHeap := (spriteHeap s2)(emptySprite := newSprite 0 0),
                        nextSprite := Suc emptySprite,
                        tileHeap := (tileHeap s2)
                          (emptyTile := \<lparr>color = 0, tileSprite = emptySprite, isEmpty = True\<rparr>),
                        nextTile := Suc emptyTile\<rparr>;
                s4 = setCell i j emptyTile s3
            in setSprite (tileSprite (tileHeap s4 (tileArray s4 ! i ! j)))
                 (\<lambda>sp. sp\<lparr>visible := False\<rparr>) s4)
         else s)
      else s)"

definition onAfterTilesDestroyed :: "Scene \<Rightarrow> Scene" where
  "onAfterTilesDestroyed s =
     fold (\<lambda>j. fold (fallTile j) (rev [0..<gridSize - 1])) [0..<gridSize] s"

text \<open>
  The body of the inner loop of \<open>replenishField\<close> for row \<open>i\<close> of column \<open>j\<close>;
  \<open>c\<close> is the cell of the local counter \<open>replenished\<close>.
\<close>

definition replenishTile :: "nat \<Rightarrow> nat \<Rightarrow> nat \<Rightarrow> nat \<Rightarrow> Scene \<Rightarrow> Scene" where
  "replenishTile c j emptySpots i s =
     (let s1 = s\<lparr>counters := (counters s)(c := counters s c + 1)\<rparr>;
          randomColor = Between s1 0 (colors - 1);
          s2 = nextRandom s1
      in if poolArray s2 = [] then
           s2\<lparr>warnings := warnings s2 @ [''Pool array is empty, cannot replenish tile.''],
              counters := (counters s2)(c := counters s2 c - 1)\<rparr>
         else
           (let newTileSprite = last (poolArray s2);
                s3 = s2\<lparr>poolArray := butlast (poolArray s2)\<rparr>;
                s4 = setTile (tileArray s3 ! i ! j)
                       (\<lambda>t. t\<lparr>color := randomColor, tileSprite := newTileSprite\<rparr>) s3;
                sprite = tileSprite (tileHeap s4 (tileArray s4 ! i ! j));
                s5 = setSprite sprite
                       (\<lambda>sp. sp\<lparr>frame := randomColor, visible := True,
                                 sx := tileSize * int j + tileSize div 2,
                                 sy := tileSize div 2 - (int emptySpots - int i) * tileSize,
                                 alpha := 1\<rparr>) s4;
                s6 = setTile (tileArray s5 ! i ! j) (\<lambda>t. t\<lparr>isEmpty := False\<rparr>) s5
            in addTween
                 \<lparr>target = tileSprite (tileHeap s6 (tileArray s6 ! i ! j)), toX = None,
                  toY = Some (tileSize * int i + tileSize div 2), toAlpha = None,
                  duration = fallSpeed * int emptySpots,
                  onComplete = ReplenishDone c\<rparr> s6))"

definition replenishCol :: "nat \<Rightarrow> nat \<Rightarrow> Scene \<Rightarrow> Scene" where
  "replenishCol c j s =
     (let emptySpots = holesInCol s j in
      if emptySpots > 0 then fold (replenishTile c j emptySpots) [0..<emptySpots] s else s)"

definition replenishField :: "Scene \<Rightarrow> Scene" where
  "replenishField s =
     (let totalEmptySpots = fold (\<lambda>j total. total + holesInCol s j) [0..<gridSize] 0 in
      if totalEmptySpots = 0 then s\<lparr>canPick := True, selectedTile := None\<rparr>
      else
        (let c = nextCounter s;
             s1 = s\<lparr>counters := (counters s)(c := 0), nextCounter := Suc c\<rparr>
         in fold (replenishCol c) [0..<gridSize] s1))"

section \<open>Destroying the marked tiles\<close>

definition totalToDestroy :: "Scene \<Rightarrow> nat" where
  "totalToDestroy s =
     fold (\<lambda>i. fold (\<lambda>j total. if removeMap s ! i ! j > 0 then total + 1 else total)
                  [0..<gridSize])
       [0..<gridSize] 0"

text \<open>The body of the second double loop of \<open>destroyMarkedTiles\<close>.\<close>

definition destroyTile :: "nat \<Rightarrow> nat \<Rightarrow> nat \<Rightarrow> Scene \<Rightarrow> Scene" where
  "destroyTile c i j s =
     (if removeMap s ! i ! j > 0 then
        (let s1 = s\<lparr>counters := (counters s)(c := counters s c + 1)\<rparr>;
             s2 = addTween
               \<lparr>target = tileSprite (tileHeap s1 (tileArray s1 ! i ! j)), toX = None, toY = None,
                toAlpha = Some (1 / 2), duration = destroySpeed,
                onComplete = DestroyDone c i j\<rparr> s1
         in setTile (tileArray s2 ! i ! j) (\<lambda>t. t\<lparr>isEmpty := True\<rparr>) s2)
      else s)"

definition destroyMarkedTiles :: "Scene \<Rightarrow> Scene" where
  "destroyMarkedTiles s =
     (if totalToDestroy s = 0 then
        replenishField
          (s\<lparr>warnings := warnings s @ [''No tiles to destroy, but destroyMarkedTiles was called'']\<rparr>)
      else
        (let c = nextCounter s;
             s1 = s\<lparr>counters := (counters s)(c := 0), nextCounter := Suc c\<rparr>
         in fold (\<lambda>i. fold (destroyTile c i) [0..<gridSize]) [0..<gridSize] s1))"

definition handleMatches :: "Scene \<Rightarrow> Scene" where
  "handleMatches s = destroyMarkedTiles (scanBoard s)"

section \<open>Completion callbacks\<close>

definition swapDone :: "nat \<Rightarrow> nat \<Rightarrow> bool \<Rightarrow> Scene \<Rightarrow> Scene option" where
  "swapDone tile1 tile2 swapBack s =
     (let s1 = s\<lparr>swappingTiles := swappingTiles s - 1\<rparr> in
      if swappingTiles s1 = 0 then
        (if \<not> matchInBoard s1 \<and> swapBack then swapTiles s1 tile1 tile2 False
         else if matchInBoard s1 then Some (handleMatches s1)
         else Some (s1\<lparr>canPick := True, selectedTile := None\<rparr>))
      else Some s1)"

definition destroyDone :: "nat \<Rightarrow> nat \<Rightarrow> nat \<Rightarrow> Scene \<Rightarrow> Scene" where
  "destroyDone c i j s =
     (let s1 = s\<lparr>counters := (counters s)(c := counters s c - 1)\<rparr>;
          sprite = tileSprite (tileHeap s1 (tileArray s1 ! i ! j));
          s2 = setSprite sprite
                 (\<lambda>sp. sp\<lparr>visible := False, alpha := 1,
                           sx := tileSize * int j + tileSize div 2,
                           sy := tileSize * int i + tileSize div 2\<rparr>) s1;
          s3 = s2\<lparr>poolArray := poolArray s2 @ [tileSprite (tileHeap s2 (tileArray s2 ! i ! j))]\<rparr>
      in if counters s3 c = 0 then replenishField (onAfterTilesDestroyed s3) else s3)"

definition replenishDone :: "nat \<Rightarrow> Scene \<Rightarrow> Scene" where
  "replenishDone c s =
     (let s1 = s\<lparr>counters := (counters s)(c := counters s c - 1)\<rparr> in
      if counters s1 c = 0 then
        (if matchInBoard s1 then s1\<lparr>timers := Suc (timers s1)\<rparr>
         else s1\<lparr>canPick := True, selectedTile := None\<rparr>)
      else s1)"

definition runCallback :: "callback \<Rightarrow> Scene \<Rightarrow> Scene option" where
  "runCallback cb s =
     (case cb of
        NoCallback \<Rightarrow> Some s
      | SwapDone tile1 tile2 swapBack \<Rightarrow> swapDone tile1 tile2 swapBack s
      | DestroyDone c i j \<Rightarrow> Some (destroyDone c i j s)
      | ReplenishDone c \<Rightarrow> Some (replenishDone c s))"

definition applyTween :: "Tween \<Rightarrow> Sprite \<Rightarrow> Sprite" where
  "applyTween tw sp =
     sp\<lparr>sx := (case toX tw of None \<Rightarrow> sx sp | Some v \<Rightarrow> v),
        sy := (case toY tw of None \<Rightarrow> sy sp | Some v \<Rightarrow> v),
        alpha := (case toAlpha tw of None \<Rightarrow> alpha sp | Some v \<Rightarrow> v)\<rparr>"

text \<open>
  The \<open>k\<close>-th pending tween completes: its target takes the final values, the tween
  leaves the list and its callback runs.
\<close>

definition tweenComplete :: "nat \<Rightarrow> Scene \<Rightarrow> Scene option" where
  "tweenComplete k s =
     (if k < length (tweens s) then
        (let tw = tweens s ! k;
             s1 = setSprite (target tw) (applyTween tw) s;
             s2 = s1\<lparr>tweens := take k (tweens s1) @ drop (Suc k) (tweens s1)\<rparr>
         in runCallback (onComplete tw) s2)
      else Some s)"

definition timerFired :: "Scene \<Rightarrow> Scene" where
  "timerFired s = (if timers s > 0 then handleMatches (s\<lparr>timers := timers s - 1\<rparr>) else s)"

section \<open>Numbers of the pointer\<close>

text \<open>
  The coordinates of a pointer are JavaScript numbers, that is IEEE 754 doubles, and the
  handlers subtract and divide them: the result is the exact result rounded to the nearest
  double, ties to the even significand. A double is modelled by the real it denotes;
  \<open>toDouble\<close> rounds a real to 53 significant bits, with the fixed spacing \<open>2 ^ (- 1074)\<close>
  of the subnormal range. A result beyond the largest double is kept as the real it
  rounds to, which compares with the thresholds of the handlers as the infinity does.
\<close>

fun bitLength :: "nat \<Rightarrow> nat" where
  "bitLength n = (if n = 0 then 0 else Suc (bitLength (n div 2)))"

declare bitLength.simps [simp del]

text \<open>The \<open>e\<close> with \<open>2 ^ e \<le> \<bar>x\<bar> < 2 ^ (e + 1)\<close>, for \<open>x \<noteq> 0\<close>.\<close>

definition binaryExponent :: "real \<Rightarrow> int" where
  "binaryExponent x =
     (if 1 \<le> \<bar>x\<bar> then int (bitLength (nat \<lfloor>\<bar>x\<bar>\<rfloor>)) - 1
      else - int (bitLength (nat (\<lceil>1 / \<bar>x\<bar>\<rceil> - 1))))"

definition pow2 :: "int \<Rightarrow> real" where
  "pow2 e = (if 0 \<le> e then 2 ^ nat e else 1 / 2 ^ nat (- e))"

definition roundHalfEven :: "real \<Rightarrow> int" where
  "roundHalfEven x =
     (let n = \<lfloor>x\<rfloor>; d = x - of_int n
      in if d < 1 / 2 then n else if 1 / 2 < d then n + 1 else if even n then n else n + 1)"

definition toDouble :: "real \<Rightarrow> real" where
  "toDouble x =
     (if x = 0 then 0
      else let q = pow2 (max (binaryExponent x) (- 1022) - 52)
           in of_int (roundHalfEven (x / q)) * q)"

text \<open>The operators \<open>-\<close> and \<open>/\<close> of the source on two doubles.\<close>

definition numSub :: "real \<Rightarrow> real \<Rightarrow> real" where
  "numSub x y = toDouble (x - y)"

definition numDiv :: "real \<Rightarrow> real \<Rightarrow> real" where
  "numDiv x y = toDouble (x / y)"

section \<open>Pointer input\<close>

definition tileSelect :: "Scene \<Rightarrow> Pointer \<Rightarrow> Scene option" where
  "tileSelect s pointer =
     (if canPick s then
        (let s1 = s\<lparr>dragging := True\<rparr>;
             row = \<lfloor>numDiv (py pointer) (real_of_int tileSize)\<rfloor>;
             col = \<lfloor>numDiv (px pointer) (real_of_int tileSize)\<rfloor>
         in case tileAt s1 row col of
              None \<Rightarrow> Some s1
            | Some pickedTile \<Rightarrow>
               (case selectedTile s1 of
                  None \<Rightarrow>
                    Some ((setSprite (tileSprite (tileHeap s1 pickedTile))
                             (\<lambda>sp. sp\<lparr>scaleXY := 12 / 10, depth := 1\<rparr>) s1)
                          \<lparr>selectedTile := Some pickedTile\<rparr>)
                | Some sel \<Rightarrow>
                    if areTheSame s1 pickedTile sel then
                      Some ((setSprite (tileSprite (tileHeap s1 sel))
                               (\<lambda>sp. sp\<lparr>scaleXY := 1\<rparr>) s1)\<lparr>selectedTile := None\<rparr>)
                    else if areNext s1 pickedTile sel then
                      swapTiles (setSprite (tileSprite (tileHeap s1 sel))
                                   (\<lambda>sp. sp\<lparr>scaleXY := 1\<rparr>) s1) sel pickedTile True
                    else
                      (let s2 = setSprite (tileSprite (tileHeap s1 sel))
                                  (\<lambda>sp. sp\<lparr>scaleXY := 1\<rparr>) s1;
                           s3 = setSprite (tileSprite (tileHeap s2 pickedTile))
                                  (\<lambda>sp. sp\<lparr>scaleXY := 12 / 10\<rparr>) s2
                       in Some (s3\<lparr>selectedTile := Some pickedTile\<rparr>))))
      else Some s)"

text \<open>The four direction tests of \<open>startSwipe\<close>, giving \<open>(deltaRow, deltaCol)\<close>.\<close>

definition swipeDelta :: "real \<Rightarrow> real \<Rightarrow> int \<times> int" where
  "swipeDelta deltaX deltaY =
     (let deltaRow = 0; deltaCol = 0;
          deltaCol = (if deltaX > real_of_int tileSize / 2 \<and> \<bar>deltaY\<bar> < real_of_int tileSize / 4
                      then - 1 else deltaCol);
          deltaCol = (if deltaX < - real_of_int tileSize / 2 \<and> \<bar>deltaY\<bar> < real_of_int tileSize / 4
                      then 1 else deltaCol);
          deltaRow = (if deltaY > real_of_int tileSize / 2 \<and> \<bar>deltaX\<bar> < real_of_int tileSize / 4
                      then - 1 else deltaRow);
          deltaRow = (if deltaY < - real_of_int tileSize / 2 \<and> \<bar>deltaX\<bar> < real_of_int tileSize / 4
                      then 1 else deltaRow)
      in (deltaRow, deltaCol))"

definition startSwipe :: "Scene \<Rightarrow> Pointer \<Rightarrow> Scene option" where
  "startSwipe s pointer =
     (case selectedTile s of
        None \<Rightarrow> Some s
      | Some sel \<Rightarrow>
          if dragging s then
            (let deltaX = numSub (downX pointer) (px pointer);
                 deltaY = numSub (downY pointer) (py pointer)
             in case swipeDelta deltaX deltaY of
                  (deltaRow, deltaCol) \<Rightarrow>
                    if deltaRow + deltaCol \<noteq> 0 then
                      (case tileAt s (getTileRow s sel + deltaRow) (getTileCol s sel + deltaCol) of
                         None \<Rightarrow> Some s
                       | Some pickedTile \<Rightarrow>
                           (case swapTiles (setSprite (tileSprite (tileHeap s sel))
                                              (\<lambda>sp. sp\<lparr>scaleXY := 1\<rparr>) s) sel pickedTile True of
                              None \<Rightarrow> None
                            | Some s' \<Rightarrow> Some (s'\<lparr>dragging := False\<rparr>)))
                    else Some s)
          else Some s)"

definition stopSwipe :: "Scene \<Rightarrow> Scene" where
  "stopSwipe s = s\<lparr>dragging := False\<rparr>"

section \<open>Initialisation\<close>

text \<open>
  An assignment \<open>a[k] = v\<close> to a JavaScript array: in place below the length, an append
  at the length (\<open>create\<close> assigns nowhere else).
\<close>

definition arraySet :: "'a list \<Rightarrow> nat \<Rightarrow> 'a \<Rightarrow> 'a list" where
  "arraySet xs k v = (if k < length xs then xs[k := v] else xs @ [v])"

text \<open>
  The \<open>do ... while (this.isMatch(i, j))\<close> loop of \<open>create\<close>: it draws until the tile
  completes no run, and returns nothing if no draw ever does.
\<close>

partial_function (option) placeTile :: "nat \<Rightarrow> nat \<Rightarrow> nat \<Rightarrow> Scene \<Rightarrow> Scene option" where
  "placeTile i j sprite s =
     (let randomColor = Between s 0 (colors - 1);
          s1 = nextRandom s;
          s2 = setSprite sprite (\<lambda>sp. sp\<lparr>frame := randomColor\<rparr>) s1;
          t = nextTile s2;
          s3 = s2\<lparr>tileHeap := (tileHeap s2)
                    (t := \<lparr>color = randomColor, tileSprite = sprite, isEmpty = False\<rparr>),
                  nextTile := Suc t,
                  tileArray := (tileArray s2)[i := arraySet (tileArray s2 ! i) j t]\<rparr>
      in if isMatch s3 (int i) (int j) then placeTile i j sprite s3 else Some s3)"

declare placeTile.simps [code]

definition createTile :: "nat \<Rightarrow> nat \<Rightarrow> Scene \<Rightarrow> Scene option" where
  "createTile i j s =
     (let sprite = nextSprite s;
          s1 = s\<lparr>spriteHeap := (spriteHeap s)
                    (sprite := newSprite (tileSize * int j + tileSize div 2)
                                         (tileSize * int i + tileSize div 2)),
                 nextSprite := Suc sprite\<rparr>
      in placeTile i j sprite s1)"

fun forEach :: "(nat \<Rightarrow> Scene \<Rightarrow> Scene option) \<Rightarrow> nat list \<Rightarrow> Scene \<Rightarrow> Scene option" where
  "forEach f [] s = Some s"
| "forEach f (k # ks) s = (case f k s of None \<Rightarrow> None | Some s' \<Rightarrow> forEach f ks s')"

definition createRow :: "nat \<Rightarrow> Scene \<Rightarrow> Scene option" where
  "createRow i s =
     forEach (createTile i) [0..<gridSize] (s\<lparr>tileArray := arraySet (tileArray s) i []\<rparr>)"

definition emptyScene :: "(nat \<Rightarrow> nat) \<Rightarrow> Scene" where
  "emptyScene draws =
     \<lparr>canPick = True, dragging = False, tileArray = [], poolArray = [], selectedTile = None,
      swappingTiles = 0, removeMap = [],
      tileHeap = (\<lambda>_. \<lparr>color = 0, tileSprite = 0, isEmpty = False\<rparr>),
      spriteHeap = (\<lambda>_. newSprite 0 0),
      nextTile = 0, nextSprite = 0, counters = (\<lambda>_. 0), nextCounter = 0,
      tweens = [], timers = 0, rng = draws, rngPos = 0, warnings = []\<rparr>"

definition create :: "(nat \<Rightarrow> nat) \<Rightarrow> Scene option" where
  "create draws = forEach createRow [0..<gridSize] (emptyScene draws)"

section \<open>Events\<close>

datatype event =
    PointerDown Pointer
  | PointerMove Pointer
  | PointerUp
  | TweenComplete nat
  | TimerFired

definition handleEvent :: "event \<Rightarrow> Scene \<Rightarrow> Scene option" where
  "handleEvent e s =
     (case e of
        PointerDown p \<Rightarrow> tileSelect s p
      | PointerMove p \<Rightarrow> startSwipe s p
      | PointerUp \<Rightarrow> Some (stopSwipe s)
      | TweenComplete k \<Rightarrow> tweenComplete k s
      | TimerFired \<Rightarrow> Some (timerFired s))"


section \<open>Views and predicates used to state the properties\<close>

definition colorAt :: "Scene \<Rightarrow> nat \<Rightarrow> nat \<Rightarrow> int" where
  "colorAt s i j = color (tileHeap s (tileArray s ! i ! j))"

definition emptyAt :: "Scene \<Rightarrow> nat \<Rightarrow> nat \<Rightarrow> bool" where
  "emptyAt s i j = isEmpty (tileHeap s (tileArray s ! i ! j))"

text \<open>The grid is the \<open>gridSize \<times> gridSize\<close> array every loop of the scene assumes.\<close>

definition gridOk :: "Scene \<Rightarrow> bool" where
  "gridOk s =
     (length (tileArray s) = gridSize \<and> list_all (\<lambda>row. length row = gridSize) (tileArray s))"

text \<open>Colours are frame indices: never negative, so never the sentinel \<open>- 1\<close> of \<open>markMatches\<close>.\<close>

definition colorsOk :: "Scene \<Rightarrow> bool" where
  "colorsOk s =
     list_all (\<lambda>i. list_all (\<lambda>j. 0 \<le> colorAt s i j) [0..<gridSize]) [0..<gridSize]"

definition maskOk :: "nat list list \<Rightarrow> bool" where
  "maskOk rm = (length rm = gridSize \<and> list_all (\<lambda>row. length row = gridSize) rm)"

definition lineColor :: "Scene \<Rightarrow> int \<Rightarrow> nat \<Rightarrow> nat \<Rightarrow> int" where
  "lineColor s direction i k = (if direction = HORIZONTAL then colorAt s i k else colorAt s k i)"

definition lineCell :: "int \<Rightarrow> nat \<Rightarrow> nat \<Rightarrow> nat \<times> nat" where
  "lineCell direction i k = (if direction = HORIZONTAL then (i, k) else (k, i))"

text \<open>
  Position \<open>k\<close> of a line of \<open>n\<close> colours lies in a window of three equal colours, that
  is, on a run of at least three.
\<close>

definition inRun3 :: "(nat \<Rightarrow> int) \<Rightarrow> nat \<Rightarrow> nat \<Rightarrow> bool" where
  "inRun3 f n k =
     list_ex (\<lambda>m. m \<le> k \<and> k \<le> m + 2 \<and> m + 2 < n \<and> f m = f (m + 1) \<and> f (m + 1) = f (m + 2))
       [0..<n]"

definition onHorizontalRun :: "Scene \<Rightarrow> nat \<Rightarrow> nat \<Rightarrow> bool" where
  "onHorizontalRun s r c = inRun3 (\<lambda>k. colorAt s r k) gridSize c"

definition onVerticalRun :: "Scene \<Rightarrow> nat \<Rightarrow> nat \<Rightarrow> bool" where
  "onVerticalRun s r c = inRun3 (\<lambda>k. colorAt s k c) gridSize r"

text \<open>
  The same for the occupied cells: position \<open>k\<close> lies in a window of three cells that are
  occupied and of equal colours.
\<close>

definition inOccupiedRun3 :: "(nat \<Rightarrow> int) \<Rightarrow> (nat \<Rightarrow> bool) \<Rightarrow> nat \<Rightarrow> nat \<Rightarrow> bool" where
  "inOccupiedRun3 f occ n k =
     list_ex (\<lambda>m. m \<le> k \<and> k \<le> m + 2 \<and> m + 2 < n \<and> occ m \<and> occ (m + 1) \<and> occ (m + 2)
                  \<and> f m = f (m + 1) \<and> f (m + 1) = f (m + 2))
       [0..<n]"

definition onOccupiedHorizontalRun :: "Scene \<Rightarrow> nat \<Rightarrow> nat \<Rightarrow> bool" where
  "onOccupiedHorizontalRun s r c =
     inOccupiedRun3 (\<lambda>k. colorAt s r k) (\<lambda>k. \<not> emptyAt s r k) gridSize c"

definition onOccupiedVerticalRun :: "Scene \<Rightarrow> nat \<Rightarrow> nat \<Rightarrow> bool" where
  "onOccupiedVerticalRun s r c =
     inOccupiedRun3 (\<lambda>k. colorAt s k c) (\<lambda>k. \<not> emptyAt s k c) gridSize r"

text \<open>Every cell of row \<open>r\<close>, of column \<open>c\<close>, is occupied.\<close>

definition rowFull :: "Scene \<Rightarrow> nat \<Rightarrow> bool" where
  "rowFull s r = list_all (\<lambda>k. \<not> emptyAt s r k) [0..<gridSize]"

definition colFull :: "Scene \<Rightarrow> nat \<Rightarrow> bool" where
  "colFull s c = list_all (\<lambda>k. \<not> emptyAt s k c) [0..<gridSize]"

definition maskNonEmpty :: "Scene \<Rightarrow> bool" where
  "maskNonEmpty s =
     list_ex (\<lambda>i. list_ex (\<lambda>j. removeMap s ! i ! j > 0) [0..<gridSize]) [0..<gridSize]"

definition tileRefsOk :: "Scene \<Rightarrow> bool" where
  "tileRefsOk s =
     list_all (\<lambda>i. list_all (\<lambda>j. tileArray s ! i ! j < nextTile s) [0..<gridSize]) [0..<gridSize]"

definition column :: "Scene \<Rightarrow> nat \<Rightarrow> nat list" where
  "column s j = map (\<lambda>i. tileArray s ! i ! j) [0..<gridSize]"

definition survivors :: "Scene \<Rightarrow> nat \<Rightarrow> nat \<Rightarrow> nat list" where
  "survivors s j i =
     filter (\<lambda>t. \<not> isEmpty (tileHeap s t)) (map (\<lambda>r. tileArray s ! r ! j) [i..<gridSize])"

text \<open>
  The state \<open>s'\<close> of the inner loop of \<open>onAfterTilesDestroyed\<close> on column \<open>j\<close>, started in
  \<open>s0\<close>, once the rows from \<open>i\<close> down have been processed.
\<close>

definition fallInv :: "Scene \<Rightarrow> nat \<Rightarrow> nat \<Rightarrow> Scene \<Rightarrow> bool" where
  "fallInv s0 j i s' =
     (gridOk s' \<and> nextTile s0 \<le> nextTile s' \<and> tileRefsOk s'
      \<and> (\<forall>t<nextTile s0. tileHeap s' t = tileHeap s0 t)
      \<and> (\<forall>t. nextTile s0 \<le> t \<and> t < nextTile s' \<longrightarrow> isEmpty (tileHeap s' t))
      \<and> (\<forall>r c. c \<noteq> j \<or> r < i \<longrightarrow> tileArray s' ! r ! c = tileArray s0 ! r ! c)
      \<and> (\<exists>fill. map (\<lambda>r. tileArray s' ! r ! j) [i..<gridSize] = fill @ survivors s0 j i
                 \<and> (\<forall>t\<in>set fill. isEmpty (tileHeap s' t))))"

text \<open>
  The state \<open>s'\<close> of \<open>onAfterTilesDestroyed\<close>, started in \<open>s\<close>, once the columns below \<open>m\<close>
  have been compacted.
\<close>

definition compactInv :: "Scene \<Rightarrow> nat \<Rightarrow> Scene \<Rightarrow> bool" where
  "compactInv s m s' =
     (gridOk s' \<and> nextTile s \<le> nextTile s' \<and> tileRefsOk s'
      \<and> (\<forall>t<nextTile s. tileHeap s' t = tileHeap s t)
      \<and> (\<forall>t. nextTile s \<le> t \<and> t < nextTile s' \<longrightarrow> isEmpty (tileHeap s' t))
      \<and> (\<forall>r c. m \<le> c \<longrightarrow> tileArray s' ! r ! c = tileArray s ! r ! c)
      \<and> (\<forall>c<m. \<exists>fill. column s' c = fill @ survivors s c 0
                 \<and> (\<forall>t\<in>set fill. isEmpty (tileHeap s' t))))"

text \<open>No two cells of the grid hold the same tile object.\<close>

definition tilesDistinct :: "Scene \<Rightarrow> bool" where
  "tilesDistinct s =
     list_all (\<lambda>i. list_all (\<lambda>j. list_all (\<lambda>i'. list_all (\<lambda>j'.
         (i = i' \<and> j = j') \<or> tileArray s ! i ! j \<noteq> tileArray s ! i' ! j')
       [0..<gridSize]) [0..<gridSize]) [0..<gridSize]) [0..<gridSize]"

definition totalHoles :: "Scene \<Rightarrow> nat" where
  "totalHoles s = sum_list (map (holesInCol s) [0..<gridSize])"

text \<open>In every column the unoccupied cells are the topmost ones.\<close>

definition holesOnTop :: "Scene \<Rightarrow> bool" where
  "holesOnTop s =
     list_all (\<lambda>j. list_all (\<lambda>i. emptyAt s i j \<longleftrightarrow> i < holesInCol s j) [0..<gridSize])
       [0..<gridSize]"

text \<open>A tile as \<open>replenishField\<close> leaves it: occupied, coloured in range, on a pooled sprite.\<close>

definition refilled :: "Scene \<Rightarrow> Tile \<Rightarrow> bool" where
  "refilled s t =
     (\<not> isEmpty t \<and> 0 \<le> color t \<and> color t < colors \<and> tileSprite t \<in> set (poolArray s))"

text \<open>The tiles in the topmost \<open>holesInCol\<close> cells of the columns below \<open>m\<close>.\<close>

definition topTiles :: "Scene \<Rightarrow> nat \<Rightarrow> nat set" where
  "topTiles s m = {tileArray s ! i ! j | i j. j < m \<and> i < holesInCol s j}"

text \<open>
  The state \<open>s'\<close> of the inner loop of \<open>replenishField\<close> on column \<open>j\<close>, started in \<open>s1\<close>
  (itself reached from \<open>s\<close>), once the rows below \<open>k\<close> are refilled.
\<close>

definition refillInv :: "Scene \<Rightarrow> Scene \<Rightarrow> nat \<Rightarrow> nat \<Rightarrow> Scene \<Rightarrow> bool" where
  "refillInv s s1 j k s' =
     (tileArray s' = tileArray s
      \<and> length (poolArray s') + k = length (poolArray s1)
      \<and> set (poolArray s') \<subseteq> set (poolArray s1)
      \<and> (\<forall>t. t \<notin> {tileArray s ! i ! j | i. i < k} \<longrightarrow> tileHeap s' t = tileHeap s1 t)
      \<and> (\<forall>i<k. refilled s (tileHeap s' (tileArray s ! i ! j))))"

text \<open>Every tile's sprite stands in the tile's own cell.\<close>

definition aligned :: "Scene \<Rightarrow> bool" where
  "aligned s =
     list_all (\<lambda>i. list_all (\<lambda>j. getTileRow s (tileArray s ! i ! j) = int i
                                 \<and> getTileCol s (tileArray s ! i ! j) = int j)
       [0..<gridSize]) [0..<gridSize]"

text \<open>What \<open>swapTiles\<close> leaves in the tile store and in the tween list.\<close>

definition swappedHeap :: "Scene \<Rightarrow> nat \<Rightarrow> nat \<Rightarrow> nat \<Rightarrow> Tile" where
  "swappedHeap s tile1 tile2 =
     (tileHeap s)
       (tile1 := (tileHeap s tile1)\<lparr>color := color (tileHeap s tile2),
                                    tileSprite := tileSprite (tileHeap s tile2)\<rparr>,
        tile2 := (tileHeap s tile2)\<lparr>color := color (tileHeap s tile1),
                                    tileSprite := tileSprite (tileHeap s tile1)\<rparr>)"

definition swapTween :: "nat \<Rightarrow> nat \<Rightarrow> nat \<Rightarrow> callback \<Rightarrow> Tween" where
  "swapTween sprite row col cb =
     \<lparr>target = sprite, toX = Some (int col * tileSize + tileSize div 2),
      toY = Some (int row * tileSize + tileSize div 2), toAlpha = None,
      duration = swapSpeed, onComplete = cb\<rparr>"

text \<open>
  The scene once both sprites of a swap of the tiles in \<open>(r1, c1)\<close> and \<open>(r2, c2)\<close> have
  arrived, just before the callback of the second tween runs.
\<close>

definition landed :: "Scene \<Rightarrow> nat \<Rightarrow> nat \<Rightarrow> nat \<Rightarrow> nat \<Rightarrow> Scene" where
  "landed s r1 c1 r2 c2 =
     (let t1 = tileArray s ! r1 ! c1; t2 = tileArray s ! r2 ! c2;
          p1 = tileSprite (tileHeap s t1); p2 = tileSprite (tileHeap s t2)
      in s\<lparr>swappingTiles := 2, canPick := False, tileHeap := swappedHeap s t1 t2, tweens := [],
            spriteHeap := (spriteHeap s)
              (p1 := (spriteHeap s p1)\<lparr>sx := int c2 * tileSize + tileSize div 2,
                                           sy := int r2 * tileSize + tileSize div 2\<rparr>,
               p2 := (spriteHeap s p2)\<lparr>sx := int c1 * tileSize + tileSize div 2,
                                           sy := int r1 * tileSize + tileSize div 2\<rparr>)\<rparr>)"

section \<open>Concrete scenes\<close>

text \<open>
  A scene at rest holding the given colours, with the listed cells marked empty: tile and
  sprite \<open>i * gridSize + j\<close> sit in cell \<open>(i, j)\<close>.
\<close>

definition sceneOf :: "int list list \<Rightarrow> (nat \<times> nat) list \<Rightarrow> Scene" where
  "sceneOf board holes =
     \<lparr>canPick = True, dragging = False,
      tileArray = map (\<lambda>i. map (\<lambda>j. i * gridSize + j) [0..<gridSize]) [0..<gridSize],
      poolArray = [], selectedTile = None, swappingTiles = 0, removeMap = [],
      tileHeap = (\<lambda>t. \<lparr>color = board ! (t div gridSize) ! (t mod gridSize), tileSprite = t,
                         isEmpty = ((t div gridSize, t mod gridSize) \<in> set holes)\<rparr>),
      spriteHeap = (\<lambda>p. newSprite (tileSize * int (p mod gridSize) + tileSize div 2)
                                   (tileSize * int (p div gridSize) + tileSize div 2)),
      nextTile = gridSize * gridSize, nextSprite = gridSize * gridSize,
      counters = (\<lambda>_. 0), nextCounter = 0,
      tweens = [], timers = 0, rng = (\<lambda>n. n), rngPos = 0, warnings = []\<rparr>"

definition boardRuns :: "int list list" where
  "boardRuns =
     [[1, 1, 1, 2, 3, 4, 5],
      [2, 3, 4, 2, 1, 0, 1],
      [3, 4, 5, 2, 2, 1, 2],
      [4, 5, 0, 1, 3, 2, 3],
      [5, 0, 1, 3, 4, 3, 4],
      [0, 1, 2, 4, 5, 4, 5],
      [1, 2, 3, 5, 0, 5, 0]]"

definition boardSettled :: "int list list" where
  "boardSettled =
     [[0, 1, 2, 3, 4, 5, 0],
      [2, 3, 4, 5, 0, 1, 2],
      [4, 5, 0, 1, 2, 3, 4],
      [0, 1, 2, 3, 4, 5, 0],
      [2, 3, 4, 5, 0, 1, 2],
      [4, 5, 0, 1, 2, 3, 4],
      [0, 1, 2, 3, 4, 5, 0]]"

definition boardCross :: "int list list" where
  "boardCross =
     [[1, 1, 1, 2, 3, 4, 5],
      [1, 3, 4, 5, 1, 0, 1],
      [1, 4, 5, 2, 2, 1, 2],
      [4, 5, 0, 1, 3, 2, 3],
      [5, 0, 1, 3, 4, 3, 4],
      [0, 1, 2, 4, 5, 4, 5],
      [1, 2, 3, 5, 0, 5, 0]]"

definition noHoles :: "Scene \<Rightarrow> bool" where
  "noHoles s = list_all (\<lambda>i. list_all (\<lambda>j. \<not> emptyAt s i j) [0..<gridSize]) [0..<gridSize]"

definition idleScene :: Scene where
  "idleScene = sceneOf boardSettled []"

definition tapA :: Pointer where
  "tapA = \<lparr>px = 50, py = 50, downX = 50, downY = 50\<rparr>"

definition tapB :: Pointer where
  "tapB = \<lparr>px = 150, py = 50, downX = 150, downY = 50\<rparr>"

definition dragRight :: Pointer where
  "dragRight = \<lparr>px = 210, py = 50, downX = 150, downY = 50\<rparr>"

text \<open>The scene after a tap on cell \<open>(0, 0)\<close>, a release, and a tap on cell \<open>(0, 1)\<close>.\<close>

definition afterTaps :: "Scene option" where
  "afterTaps = Option.bind (tileSelect idleScene tapA) (\<lambda>s1. tileSelect (stopSwipe s1) tapB)"

definition rowColors :: "Scene \<Rightarrow> nat \<Rightarrow> int list" where
  "rowColors s i = map (colorAt s i) [0..<gridSize]"

definition dragScene :: Scene where
  "dragScene = idleScene\<lparr>dragging := True, selectedTile := Some 0\<rparr>"

definition dragOne :: Pointer where
  "dragOne = \<lparr>px = 110, py = 50, downX = 50, downY = 50\<rparr>"

text \<open>
  A move with the pointer down at the double nearest to 60.3 and now at the double nearest
  to 10.299999999999995: the exact difference is above half a tile, the rounded one is 50.
\<close>

definition dragEdge :: Pointer where
  "dragEdge = \<lparr>px = 5798384520239511 / 562949953421312, py = 50,
               downX = 4243235273913139 / 70368744177664, downY = 50\<rparr>"

definition holedScene :: Scene where
  "holedScene = sceneOf boardSettled [(1, 0), (3, 0), (6, 2)]"

definition gapScene :: Scene where
  "gapScene = sceneOf boardSettled [(2, 0)]"

text \<open>
  The state \<open>s'\<close> of the outer loop of \<open>replenishField\<close>, started from \<open>s\<close>, once the
  columns below \<open>m\<close> are refilled.
\<close>

definition refillAllInv :: "Scene \<Rightarrow> nat \<Rightarrow> Scene \<Rightarrow> bool" where
  "refillAllInv s m s' =
     (tileArray s' = tileArray s
      \<and> length (poolArray s') + sum_list (map (holesInCol s) [0..<m]) = length (poolArray s)
      \<and> set (poolArray s') \<subseteq> set (poolArray s)
      \<and> (\<forall>t. t \<notin> topTiles s m \<longrightarrow> tileHeap s' t = tileHeap s t)
      \<and> (\<forall>t\<in>topTiles s m. refilled s (tileHeap s' t)))"

definition pooledScene :: Scene where
  "pooledScene = (sceneOf boardSettled [(3, 0)])\<lparr>poolArray := [49], nextSprite := 50\<rparr>"

definition toppedScene :: Scene where
  "toppedScene = (sceneOf boardSettled [(0, 0), (1, 0), (0, 4)])\<lparr>poolArray := [49, 50, 51], nextSprite := 52\<rparr>"

section \<open>The removal mask: what the scan computes\<close>

lemma tileAt_in: "i < gridSize \<Longrightarrow> j < gridSize \<Longrightarrow> tileAt s (int i) (int j) = Some (tileArray s ! i ! j)"
  by (simp add: tileAt_def)

lemma inRun3_iff:
  "inRun3 f n k \<longleftrightarrow> (\<exists>m. m \<le> k \<and> k \<le> m + 2 \<and> m + 2 < n \<and> f m = f (m + 1) \<and> f (m + 1) = f (m + 2))"
  unfolding inRun3_def list_ex_iff by auto

lemma maskOk_nth: "maskOk rm \<Longrightarrow> r < gridSize \<Longrightarrow> length (rm ! r) = gridSize"
  by (simp add: maskOk_def list_all_length)

lemma bump_maskOk: "maskOk rm \<Longrightarrow> maskOk (bump rm r c)"
  unfolding maskOk_def bump_def list_all_length
  by (cases "r < length rm") (auto simp: nth_list_update)

lemma bump_nth:
  "maskOk rm \<Longrightarrow> r < gridSize \<Longrightarrow> c < gridSize \<Longrightarrow>
   bump rm r c ! r' ! c' = rm ! r' ! c' + (if r' = r \<and> c' = c then 1 else 0)"
  unfolding bump_def maskOk_def list_all_length
  by (auto simp: nth_list_update)

lemma lineCell_inj: "lineCell d i k = lineCell d i k' \<longleftrightarrow> k = k'"
  by (auto simp: lineCell_def)

lemma markStreak_Suc:
  "markStreak d i st (Suc len) rm =
      (if d = HORIZONTAL then bump (markStreak d i st len rm) i (st + len)
       else bump (markStreak d i st len rm) (st + len) i)"
  by (simp add: markStreak_def)

lemma markStreak_spec:
  "maskOk rm \<Longrightarrow> i < gridSize \<Longrightarrow> st + len \<le> gridSize \<Longrightarrow>
   maskOk (markStreak d i st len rm) \<and>
   (\<forall>r c. markStreak d i st len rm ! r ! c =
      rm ! r ! c + (if \<exists>k. st \<le> k \<and> k < st + len \<and> (r, c) = lineCell d i k then 1 else 0))"
proof (induction len)
  case 0
  then show ?case by (simp add: markStreak_def)
next
  case (Suc len)
  from Suc have IH: "maskOk (markStreak d i st len rm)"
    and IH2: "\<And>r c. markStreak d i st len rm ! r ! c =
      rm ! r ! c + (if \<exists>k. st \<le> k \<and> k < st + len \<and> (r, c) = lineCell d i k then 1 else 0)"
    by auto
  have lt: "st + len < gridSize" using Suc.prems by simp
  show ?case
  proof (intro conjI allI)
    show "maskOk (markStreak d i st (Suc len) rm)"
      using IH by (cases "d = HORIZONTAL") (simp_all add: markStreak_Suc bump_maskOk)
  next
    fix r c
    define A where "A \<longleftrightarrow> (\<exists>k. st \<le> k \<and> k < st + len \<and> (r, c) = lineCell d i k)"
    define B where "B \<longleftrightarrow> (r, c) = lineCell d i (st + len)"
    have ex: "(\<exists>k. st \<le> k \<and> k < st + Suc len \<and> (r, c) = lineCell d i k) \<longleftrightarrow> A \<or> B"
      unfolding A_def B_def by (auto simp: less_Suc_eq intro: exI [of _ "st + len"])
    have excl: "\<not> (A \<and> B)"
      unfolding A_def B_def by (auto simp: lineCell_inj)
    have old: "markStreak d i st len rm ! r ! c = rm ! r ! c + (if A then 1 else 0)"
      unfolding A_def by (rule IH2)
    have new: "markStreak d i st (Suc len) rm ! r ! c =
        markStreak d i st len rm ! r ! c + (if B then 1 else 0)"
    proof (cases "d = HORIZONTAL")
      case True
      have "markStreak d i st (Suc len) rm = bump (markStreak d i st len rm) i (st + len)"
        using True by (simp add: markStreak_Suc)
      moreover have "B \<longleftrightarrow> r = i \<and> c = st + len"
        unfolding B_def lineCell_def using True by simp
      ultimately show ?thesis
        using bump_nth [OF IH Suc.prems(2) lt, of r c] by simp
    next
      case False
      have "markStreak d i st (Suc len) rm = bump (markStreak d i st len rm) (st + len) i"
        using False by (simp add: markStreak_Suc)
      moreover have "B \<longleftrightarrow> r = st + len \<and> c = i"
        unfolding B_def lineCell_def using False by simp
      ultimately show ?thesis
        using bump_nth [OF IH lt Suc.prems(2), of r c] by simp
    qed
    show "markStreak d i st (Suc len) rm ! r ! c =
      rm ! r ! c + (if \<exists>k. st \<le> k \<and> k < st + Suc len \<and> (r, c) = lineCell d i k then 1 else 0)"
      unfolding ex new old using excl by auto
  qed
qed

lemma run_window:
  assumes "ss \<le> k" "k < e" "e \<le> n"
    and same: "\<And>k'. ss \<le> k' \<Longrightarrow> k' < e \<Longrightarrow> f k' = cc"
    and left: "ss = 0 \<or> f (ss - 1) \<noteq> cc"
    and right: "e = n \<or> f e \<noteq> cc"
  shows "inRun3 f n k \<longleftrightarrow> 3 \<le> e - ss"
proof
  assume "inRun3 f n k"
  then obtain m where m: "m \<le> k" "k \<le> m + 2" "m + 2 < n" "f m = f (m + 1)" "f (m + 1) = f (m + 2)"
    unfolding inRun3_iff by blast
  have fk: "f k = cc" using same assms(1,2) by simp
  have all: "\<And>q. m \<le> q \<Longrightarrow> q \<le> m + 2 \<Longrightarrow> f q = cc"
  proof -
    fix q assume q: "m \<le> q" "q \<le> m + 2"
    have "q = m \<or> q = m + 1 \<or> q = m + 2" using q by arith
    moreover have "k = m \<or> k = m + 1 \<or> k = m + 2" using m by arith
    ultimately show "f q = cc" using m(4,5) fk by auto
  qed
  have lo: "ss \<le> m"
  proof (rule ccontr)
    assume "\<not> ss \<le> m"
    then have "m \<le> ss - 1" "ss - 1 \<le> m + 2" "ss \<noteq> 0" using m assms(1) by arith+
    then show False using all [of "ss - 1"] left by simp
  qed
  have hi: "m + 2 < e"
  proof (rule ccontr)
    assume "\<not> m + 2 < e"
    then have e: "m \<le> e" "e \<le> m + 2" using m assms(2) by arith+
    then have "e \<noteq> n" using m(3) by arith
    then show False using all [OF e] right by simp
  qed
  show "3 \<le> e - ss" using lo hi by arith
next
  assume len: "3 \<le> e - ss"
  define m where "m = (if k + 2 < e then (if k = ss then k else k) else e - 3)"
  define m' where "m' = (if k + 2 < e then k else e - 3)"
  have 1: "ss \<le> m'" "m' \<le> k" "k \<le> m' + 2" "m' + 2 < e"
    using len assms(1,2) unfolding m'_def by (auto split: if_splits)
  have "f m' = cc" "f (m' + 1) = cc" "f (m' + 2) = cc"
    using 1 by (auto intro!: same)
  then show "inRun3 f n k"
    unfolding inRun3_iff using 1 assms(3) by (intro exI [of _ m']) auto
qed

lemma scanTile_step:
  assumes "i < gridSize" "j < gridSize"
  shows "scanTile s d i j (rm, cs, cc, ss) =
     (if lineColor s d i j = cc then (rm, cs + 1, cc, ss)
      else ((if cs \<ge> 3 then markStreak d i ss cs rm else rm), 1, lineColor s d i j, j))"
  using assms
  by (cases "d = HORIZONTAL")
     (simp_all add: scanTile_def tileAt_in lineColor_def colorAt_def Let_def)

lemma scan_inv:
  assumes ok: "maskOk rm" and i: "i < gridSize"
    and col: "\<forall>k<gridSize. lineColor s d i k \<noteq> - 1"
  shows "j < gridSize \<Longrightarrow>
    \<exists>rm' ss. fold (scanTile s d i) [0..<Suc j] (rm, 1, - 1, 0)
                = (rm', Suc j - ss, lineColor s d i j, ss)
      \<and> ss \<le> j
      \<and> (\<forall>k. ss \<le> k \<and> k \<le> j \<longrightarrow> lineColor s d i k = lineColor s d i j)
      \<and> (ss = 0 \<or> lineColor s d i (ss - 1) \<noteq> lineColor s d i j)
      \<and> maskOk rm'
      \<and> (\<forall>r c. rm' ! r ! c = rm ! r ! c +
            (if \<exists>k<ss. (r, c) = lineCell d i k \<and> inRun3 (lineColor s d i) gridSize k
             then 1 else 0))"
proof (induction j)
  case 0
  have "fold (scanTile s d i) [0..<Suc 0] (rm, 1, - 1, 0) = (rm, 1, lineColor s d i 0, 0)"
    using col 0 i by (simp add: scanTile_step)
  then show ?case using ok by simp
next
  case (Suc j)
  let ?f = "lineColor s d i"
  have jlt: "j < gridSize" using Suc.prems by simp
  from Suc.IH [OF jlt] obtain rm' ss where IH:
    "fold (scanTile s d i) [0..<Suc j] (rm, 1, - 1, 0) = (rm', Suc j - ss, ?f j, ss)
      \<and> ss \<le> j
      \<and> (\<forall>k. ss \<le> k \<and> k \<le> j \<longrightarrow> ?f k = ?f j)
      \<and> (ss = 0 \<or> ?f (ss - 1) \<noteq> ?f j)
      \<and> maskOk rm'
      \<and> (\<forall>r c. rm' ! r ! c = rm ! r ! c +
            (if \<exists>k<ss. (r, c) = lineCell d i k \<and> inRun3 ?f gridSize k then 1 else 0))"
    by (elim exE)
  from IH have st: "fold (scanTile s d i) [0..<Suc j] (rm, 1, - 1, 0) = (rm', Suc j - ss, ?f j, ss)"
    by (rule conjunct1)
  from IH have ss: "ss \<le> j" by (elim conjE)
  from IH have same: "\<And>k. ss \<le> k \<Longrightarrow> k \<le> j \<Longrightarrow> ?f k = ?f j" by (elim conjE) blast
  from IH have left: "ss = 0 \<or> ?f (ss - 1) \<noteq> ?f j" by (elim conjE)
  from IH have ok': "maskOk rm'" by (elim conjE)
  from IH have marks: "\<And>r c. rm' ! r ! c = rm ! r ! c +
            (if \<exists>k<ss. (r, c) = lineCell d i k \<and> inRun3 ?f gridSize k then 1 else 0)"
    by (elim conjE) blast
  have next_state: "fold (scanTile s d i) [0..<Suc (Suc j)] (rm, 1, - 1, 0)
      = scanTile s d i (Suc j) (rm', Suc j - ss, ?f j, ss)"
    unfolding upt_Suc_append [OF le0, of "Suc j"] fold_append comp_def fold_simps st ..
  show ?case
  proof (cases "?f (Suc j) = ?f j")
    case True
    have a1: "fold (scanTile s d i) [0..<Suc (Suc j)] (rm, 1, - 1, 0)
        = (rm', Suc (Suc j) - ss, ?f (Suc j), ss)"
      unfolding next_state using True ss Suc.prems i
      by (simp add: scanTile_step Suc_diff_le)
    have a2: "ss \<le> Suc j" using ss by simp
    have a3: "\<forall>k. ss \<le> k \<and> k \<le> Suc j \<longrightarrow> ?f k = ?f (Suc j)"
      by (metis same True le_Suc_eq)
    have a4: "ss = 0 \<or> ?f (ss - 1) \<noteq> ?f (Suc j)"
      using left True by simp
    have a6: "\<forall>r c. rm' ! r ! c = rm ! r ! c +
            (if \<exists>k<ss. (r, c) = lineCell d i k \<and> inRun3 ?f gridSize k then 1 else 0)"
      using marks by blast
    show ?thesis
      by (rule exI [of _ rm'], rule exI [of _ ss], intro conjI) (fact a1 a2 a3 a4 ok' a6)+
  next
    case False
    define rm2 where "rm2 = (if Suc j - ss \<ge> 3 then markStreak d i ss (Suc j - ss) rm' else rm')"
    have state: "fold (scanTile s d i) [0..<Suc (Suc j)] (rm, 1, - 1, 0)
        = (rm2, Suc (Suc j) - Suc j, ?f (Suc j), Suc j)"
      unfolding next_state rm2_def using False Suc.prems i
      by (simp add: scanTile_step)
    have len: "ss + (Suc j - ss) \<le> gridSize" using ss Suc.prems by simp
    have spec: "maskOk (markStreak d i ss (Suc j - ss) rm')"
       "\<And>r c. markStreak d i ss (Suc j - ss) rm' ! r ! c =
          rm' ! r ! c + (if \<exists>k. ss \<le> k \<and> k < ss + (Suc j - ss) \<and> (r, c) = lineCell d i k then 1 else 0)"
      using markStreak_spec [OF ok' i len, of d] by auto
    have ok2: "maskOk rm2" unfolding rm2_def using spec(1) ok' by simp
    have win: "\<And>k. ss \<le> k \<Longrightarrow> k < Suc j \<Longrightarrow> inRun3 ?f gridSize k \<longleftrightarrow> 3 \<le> Suc j - ss"
    proof -
      fix k assume k: "ss \<le> k" "k < Suc j"
      show "inRun3 ?f gridSize k \<longleftrightarrow> 3 \<le> Suc j - ss"
      proof (rule run_window [where cc = "?f j"])
        show "ss \<le> k" "k < Suc j" by fact+
        show "Suc j \<le> gridSize" using Suc.prems by simp
        show "\<And>k'. ss \<le> k' \<Longrightarrow> k' < Suc j \<Longrightarrow> ?f k' = ?f j" by (rule same) simp_all
        show "ss = 0 \<or> ?f (ss - 1) \<noteq> ?f j" by fact
        show "Suc j = gridSize \<or> ?f (Suc j) \<noteq> ?f j" using False by simp
      qed
    qed
    have marks2: "\<forall>r c. rm2 ! r ! c = rm ! r ! c +
            (if \<exists>k<Suc j. (r, c) = lineCell d i k \<and> inRun3 ?f gridSize k then 1 else 0)"
    proof (intro allI)
      fix r c
      define A where "A \<longleftrightarrow> (\<exists>k<ss. (r, c) = lineCell d i k \<and> inRun3 ?f gridSize k)"
      define B where "B \<longleftrightarrow> (\<exists>k. ss \<le> k \<and> k < Suc j \<and> (r, c) = lineCell d i k)"
      have split: "(\<exists>k<Suc j. (r, c) = lineCell d i k \<and> inRun3 ?f gridSize k)
          \<longleftrightarrow> A \<or> (B \<and> 3 \<le> Suc j - ss)"
      proof
        assume "\<exists>k<Suc j. (r, c) = lineCell d i k \<and> inRun3 ?f gridSize k"
        then obtain k where k: "k < Suc j" "(r, c) = lineCell d i k" "inRun3 ?f gridSize k" by blast
        show "A \<or> (B \<and> 3 \<le> Suc j - ss)"
        proof (cases "k < ss")
          case True then show ?thesis unfolding A_def using k by blast
        next
          case False
          then have "ss \<le> k" by simp
          then show ?thesis unfolding B_def using k win [of k] by blast
        qed
      next
        assume "A \<or> (B \<and> 3 \<le> Suc j - ss)"
        then show "\<exists>k<Suc j. (r, c) = lineCell d i k \<and> inRun3 ?f gridSize k"
        proof
          assume A
          then obtain k where "k < ss" "(r, c) = lineCell d i k" "inRun3 ?f gridSize k"
            unfolding A_def by blast
          then show ?thesis using ss by (intro exI [of _ k]) simp
        next
          assume "B \<and> 3 \<le> Suc j - ss"
          then obtain k where "ss \<le> k" "k < Suc j" "(r, c) = lineCell d i k" "3 \<le> Suc j - ss"
            unfolding B_def by blast
          then show ?thesis using win [of k] by (intro exI [of _ k]) simp
        qed
      qed
      have excl: "\<not> (A \<and> B)"
        unfolding A_def B_def by (auto simp: lineCell_inj)
      have old: "rm' ! r ! c = rm ! r ! c + (if A then 1 else 0)"
        unfolding A_def by (rule marks)
      have new: "rm2 ! r ! c = rm' ! r ! c + (if B \<and> 3 \<le> Suc j - ss then 1 else 0)"
        unfolding rm2_def B_def using spec(2) [of r c] ss by auto
      show "rm2 ! r ! c = rm ! r ! c +
            (if \<exists>k<Suc j. (r, c) = lineCell d i k \<and> inRun3 ?f gridSize k then 1 else 0)"
        unfolding split new old using excl by auto
    qed
    have b1: "fold (scanTile s d i) [0..<Suc (Suc j)] (rm, 1, - 1, 0)
        = (rm2, Suc (Suc j) - Suc j, ?f (Suc j), Suc j)" by (rule state)
    have b2: "Suc j \<le> Suc j" by simp
    have b3: "\<forall>k. Suc j \<le> k \<and> k \<le> Suc j \<longrightarrow> ?f k = ?f (Suc j)"
      by (auto dest: le_antisym)
    have b4: "Suc j = 0 \<or> ?f (Suc j - 1) \<noteq> ?f (Suc j)" using False by simp
    show ?thesis
      by (rule exI [of _ rm2], rule exI [of _ "Suc j"], intro conjI) (fact b1 b2 b3 b4 ok2 marks2)+
  qed
qed

lemma gridSize_pos: "0 < gridSize"
  by (simp add: gridSize_def)

lemma colorsOk_nth: "colorsOk s \<Longrightarrow> i < gridSize \<Longrightarrow> j < gridSize \<Longrightarrow> 0 \<le> colorAt s i j"
  by (simp add: colorsOk_def list_all_iff)

lemma colorsOk_line:
  "colorsOk s \<Longrightarrow> i < gridSize \<Longrightarrow> \<forall>k<gridSize. lineColor s d i k \<noteq> - 1"
proof (intro allI impI)
  fix k assume "colorsOk s" "i < gridSize" "k < gridSize"
  then show "lineColor s d i k \<noteq> - 1"
    using colorsOk_nth [of s i k] colorsOk_nth [of s k i]
    by (auto simp: lineColor_def)
qed

lemma inRun3_less: "inRun3 f n k \<Longrightarrow> k < n"
  unfolding inRun3_iff by auto

lemma markLine_spec:
  assumes ok: "maskOk rm" and i: "i < gridSize"
    and col: "\<forall>k<gridSize. lineColor s d i k \<noteq> - 1"
  shows "maskOk (markLine s d i rm) \<and>
     (\<forall>r c. markLine s d i rm ! r ! c = rm ! r ! c +
        (if \<exists>k. (r, c) = lineCell d i k \<and> inRun3 (lineColor s d i) gridSize k then 1 else 0))"
proof -
  let ?f = "lineColor s d i"
  define j where "j = gridSize - 1"
  have j: "j < gridSize" "Suc j = gridSize" using gridSize_pos by (simp_all add: j_def)
  from scan_inv [OF ok i col j(1)] obtain rm' ss where IH:
    "fold (scanTile s d i) [0..<Suc j] (rm, 1, - 1, 0) = (rm', Suc j - ss, ?f j, ss)
      \<and> ss \<le> j
      \<and> (\<forall>k. ss \<le> k \<and> k \<le> j \<longrightarrow> ?f k = ?f j)
      \<and> (ss = 0 \<or> ?f (ss - 1) \<noteq> ?f j)
      \<and> maskOk rm'
      \<and> (\<forall>r c. rm' ! r ! c = rm ! r ! c +
            (if \<exists>k<ss. (r, c) = lineCell d i k \<and> inRun3 ?f gridSize k then 1 else 0))"
    by (elim exE)
  from IH have st: "fold (scanTile s d i) [0..<gridSize] (rm, 1, - 1, 0) = (rm', gridSize - ss, ?f j, ss)"
    unfolding j(2) by (rule conjunct1)
  from IH have ss: "ss \<le> j" by (elim conjE)
  from IH have same: "\<And>k. ss \<le> k \<Longrightarrow> k \<le> j \<Longrightarrow> ?f k = ?f j" by (elim conjE) blast
  from IH have left: "ss = 0 \<or> ?f (ss - 1) \<noteq> ?f j" by (elim conjE)
  from IH have ok': "maskOk rm'" by (elim conjE)
  from IH have marks: "\<And>r c. rm' ! r ! c = rm ! r ! c +
            (if \<exists>k<ss. (r, c) = lineCell d i k \<and> inRun3 ?f gridSize k then 1 else 0)"
    by (elim conjE) blast
  define rm2 where "rm2 = (if gridSize - ss \<ge> 3 then markStreak d i ss (gridSize - ss) rm' else rm')"
  have res: "markLine s d i rm = rm2"
    unfolding markLine_def st rm2_def by simp
  have len: "ss + (gridSize - ss) \<le> gridSize" using ss j by simp
  have spec: "maskOk (markStreak d i ss (gridSize - ss) rm')"
     "\<And>r c. markStreak d i ss (gridSize - ss) rm' ! r ! c =
        rm' ! r ! c + (if \<exists>k. ss \<le> k \<and> k < ss + (gridSize - ss) \<and> (r, c) = lineCell d i k then 1 else 0)"
    using markStreak_spec [OF ok' i len, of d] by auto
  have ok2: "maskOk rm2" unfolding rm2_def using spec(1) ok' by simp
  have win: "\<And>k. ss \<le> k \<Longrightarrow> k < gridSize \<Longrightarrow> inRun3 ?f gridSize k \<longleftrightarrow> 3 \<le> gridSize - ss"
  proof -
    fix k assume k: "ss \<le> k" "k < gridSize"
    show "inRun3 ?f gridSize k \<longleftrightarrow> 3 \<le> gridSize - ss"
    proof (rule run_window [where cc = "?f j"])
      show "ss \<le> k" "k < gridSize" by fact+
      show "gridSize \<le> gridSize" by simp
      show "\<And>k'. ss \<le> k' \<Longrightarrow> k' < gridSize \<Longrightarrow> ?f k' = ?f j"
        using j by (intro same) simp_all
      show "ss = 0 \<or> ?f (ss - 1) \<noteq> ?f j" by fact
      show "gridSize = gridSize \<or> ?f gridSize \<noteq> ?f j" by simp
    qed
  qed
  have marks2: "\<forall>r c. rm2 ! r ! c = rm ! r ! c +
          (if \<exists>k. (r, c) = lineCell d i k \<and> inRun3 ?f gridSize k then 1 else 0)"
  proof (intro allI)
    fix r c
    define A where "A \<longleftrightarrow> (\<exists>k<ss. (r, c) = lineCell d i k \<and> inRun3 ?f gridSize k)"
    define B where "B \<longleftrightarrow> (\<exists>k. ss \<le> k \<and> k < gridSize \<and> (r, c) = lineCell d i k)"
    have split: "(\<exists>k. (r, c) = lineCell d i k \<and> inRun3 ?f gridSize k)
        \<longleftrightarrow> A \<or> (B \<and> 3 \<le> gridSize - ss)"
    proof
      assume "\<exists>k. (r, c) = lineCell d i k \<and> inRun3 ?f gridSize k"
      then obtain k where k: "(r, c) = lineCell d i k" "inRun3 ?f gridSize k" by blast
      then have kn: "k < gridSize" by (simp add: inRun3_less)
      show "A \<or> (B \<and> 3 \<le> gridSize - ss)"
      proof (cases "k < ss")
        case True then show ?thesis unfolding A_def using k by blast
      next
        case False
        then have "ss \<le> k" by simp
        then show ?thesis unfolding B_def using k kn win [of k] by blast
      qed
    next
      assume "A \<or> (B \<and> 3 \<le> gridSize - ss)"
      then show "\<exists>k. (r, c) = lineCell d i k \<and> inRun3 ?f gridSize k"
      proof
        assume A
        then show ?thesis unfolding A_def by blast
      next
        assume "B \<and> 3 \<le> gridSize - ss"
        then obtain k where "ss \<le> k" "k < gridSize" "(r, c) = lineCell d i k" "3 \<le> gridSize - ss"
          unfolding B_def by blast
        then show ?thesis using win [of k] by (intro exI [of _ k]) simp
      qed
    qed
    have excl: "\<not> (A \<and> B)"
      unfolding A_def B_def by (auto simp: lineCell_inj)
    have old: "rm' ! r ! c = rm ! r ! c + (if A then 1 else 0)"
      unfolding A_def by (rule marks)
    have new: "rm2 ! r ! c = rm' ! r ! c + (if B \<and> 3 \<le> gridSize - ss then 1 else 0)"
      unfolding rm2_def B_def using spec(2) [of r c] ss j by auto
    show "rm2 ! r ! c = rm ! r ! c +
          (if \<exists>k. (r, c) = lineCell d i k \<and> inRun3 ?f gridSize k then 1 else 0)"
      unfolding split new old using excl by auto
  qed
  show ?thesis unfolding res using ok2 marks2 by blast
qed

lemma markLines_spec:
  assumes col: "colorsOk s"
  shows "maskOk rm \<Longrightarrow> m \<le> gridSize \<Longrightarrow>
    maskOk (fold (markLine s d) [0..<m] rm) \<and>
     (\<forall>r c. fold (markLine s d) [0..<m] rm ! r ! c = rm ! r ! c +
        (if \<exists>i<m. \<exists>k. (r, c) = lineCell d i k \<and> inRun3 (lineColor s d i) gridSize k then 1 else 0))"
proof (induction m)
  case 0
  then show ?case by simp
next
  case (Suc m)
  define rm1 where "rm1 = fold (markLine s d) [0..<m] rm"
  have m: "m < gridSize" using Suc.prems by simp
  have ok1: "maskOk rm1"
    and marks1: "\<And>r c. rm1 ! r ! c = rm ! r ! c +
        (if \<exists>i<m. \<exists>k. (r, c) = lineCell d i k \<and> inRun3 (lineColor s d i) gridSize k then 1 else 0)"
    unfolding rm1_def using Suc.IH [OF Suc.prems(1)] m by auto
  have step: "fold (markLine s d) [0..<Suc m] rm = markLine s d m rm1"
    unfolding rm1_def by simp
  have line: "maskOk (markLine s d m rm1)"
     "\<And>r c. markLine s d m rm1 ! r ! c = rm1 ! r ! c +
        (if \<exists>k. (r, c) = lineCell d m k \<and> inRun3 (lineColor s d m) gridSize k then 1 else 0)"
    using markLine_spec [OF ok1 m colorsOk_line [OF col m]] by auto
  have marks2: "\<forall>r c. markLine s d m rm1 ! r ! c = rm ! r ! c +
        (if \<exists>i<Suc m. \<exists>k. (r, c) = lineCell d i k \<and> inRun3 (lineColor s d i) gridSize k then 1 else 0)"
  proof (intro allI)
    fix r c
    define A where "A \<longleftrightarrow> (\<exists>i<m. \<exists>k. (r, c) = lineCell d i k \<and> inRun3 (lineColor s d i) gridSize k)"
    define B where "B \<longleftrightarrow> (\<exists>k. (r, c) = lineCell d m k \<and> inRun3 (lineColor s d m) gridSize k)"
    have split: "(\<exists>i<Suc m. \<exists>k. (r, c) = lineCell d i k \<and> inRun3 (lineColor s d i) gridSize k) \<longleftrightarrow> A \<or> B"
      unfolding A_def B_def by (auto simp: less_Suc_eq)
    have excl: "\<not> (A \<and> B)"
      unfolding A_def B_def by (auto simp: lineCell_def split: if_splits)
    show "markLine s d m rm1 ! r ! c = rm ! r ! c +
        (if \<exists>i<Suc m. \<exists>k. (r, c) = lineCell d i k \<and> inRun3 (lineColor s d i) gridSize k then 1 else 0)"
      unfolding split line(2) marks1 A_def [symmetric] B_def [symmetric] using excl by auto
  qed
  show ?case unfolding step using line(1) marks2 by blast
qed

lemma lineRun_iff:
  "(\<exists>i<gridSize. \<exists>k. (r, c) = lineCell d i k \<and> inRun3 (lineColor s d i) gridSize k) \<longleftrightarrow>
     r < gridSize \<and> c < gridSize \<and> (if d = HORIZONTAL then onHorizontalRun s r c else onVerticalRun s r c)"
  unfolding onHorizontalRun_def onVerticalRun_def lineCell_def lineColor_def
  by (auto dest: inRun3_less)

lemma markMatches_spec:
  assumes "colorsOk s" "maskOk (removeMap s)"
  shows "maskOk (removeMap (markMatches d s))"
    and "r < gridSize \<Longrightarrow> c < gridSize \<Longrightarrow> removeMap (markMatches d s) ! r ! c = removeMap s ! r ! c +
        (if (if d = HORIZONTAL then onHorizontalRun s r c else onVerticalRun s r c) then 1 else 0)"
  using markLines_spec [OF assms, of gridSize d] lineRun_iff [of r c d s]
  by (simp_all add: markMatches_def)

lemma colorAt_markMatches [simp]: "colorAt (markMatches d s) = colorAt s"
  by (simp add: colorAt_def markMatches_def fun_eq_iff)

lemma colorAt_resetRemoveMap [simp]: "colorAt (resetRemoveMap s) = colorAt s"
  by (simp add: colorAt_def resetRemoveMap_def fun_eq_iff)

lemma colorsOk_markMatches [simp]: "colorsOk (markMatches d s) = colorsOk s"
  by (simp add: colorsOk_def)

lemma colorsOk_resetRemoveMap [simp]: "colorsOk (resetRemoveMap s) = colorsOk s"
  by (simp add: colorsOk_def)

lemma maskOk_reset: "maskOk (removeMap (resetRemoveMap s))"
  by (simp add: resetRemoveMap_def maskOk_def list_all_length)

lemma reset_nth: "r < gridSize \<Longrightarrow> c < gridSize \<Longrightarrow> removeMap (resetRemoveMap s) ! r ! c = 0"
  by (simp add: resetRemoveMap_def)

lemma mask_value:
  assumes "colorsOk s" "r < gridSize" "c < gridSize"
  shows "removeMap (scanBoard s) ! r ! c =
     (if onHorizontalRun s r c then 1 else 0) + (if onVerticalRun s r c then 1 else 0)"
proof -
  let ?s0 = "resetRemoveMap s"
  let ?s1 = "markMatches HORIZONTAL ?s0"
  have c0: "colorsOk ?s0" using assms(1) by simp
  have h: "maskOk (removeMap ?s1)"
      "removeMap ?s1 ! r ! c = (if onHorizontalRun s r c then 1 else 0)"
    using markMatches_spec(1) [OF c0 maskOk_reset, of HORIZONTAL]
      markMatches_spec(2) [OF c0 maskOk_reset, of r c HORIZONTAL] assms(2,3)
    by (simp_all add: reset_nth onHorizontalRun_def)
  have c1: "colorsOk ?s1" using assms(1) by simp
  have ne: "VERTICAL \<noteq> HORIZONTAL" by (simp add: VERTICAL_def HORIZONTAL_def)
  have v: "removeMap (markMatches VERTICAL ?s1) ! r ! c =
      removeMap ?s1 ! r ! c + (if onVerticalRun s r c then 1 else 0)"
    using markMatches_spec(2) [OF c1 h(1), of r c VERTICAL] assms(2,3) ne
    by (simp add: onVerticalRun_def)
  show ?thesis unfolding scanBoard_def v h(2) ..
qed

lemma tileAt_int:
  "tileAt s (int i - int a) (int j - int b) =
     (if a \<le> i \<and> i - a < gridSize \<and> b \<le> j \<and> j - b < gridSize
      then Some (tileArray s ! (i - a) ! (j - b)) else None)"
  unfolding tileAt_def
  by (auto simp: nat_diff_distrib' simp flip: of_nat_diff)

lemma isHorizontalMatch_iff:
  assumes "i < gridSize" "j < gridSize"
  shows "isHorizontalMatch s (int i) (int j) \<longleftrightarrow>
     2 \<le> j \<and> colorAt s i (j - 1) = colorAt s i j \<and> colorAt s i (j - 2) = colorAt s i j"
  using assms tileAt_int [of s i 0 j 0] tileAt_int [of s i 0 j 1] tileAt_int [of s i 0 j 2]
  by (auto simp: isHorizontalMatch_def sameColors_def colorAt_def Let_def)

lemma isVerticalMatch_iff:
  assumes "i < gridSize" "j < gridSize"
  shows "isVerticalMatch s (int i) (int j) \<longleftrightarrow>
     2 \<le> i \<and> colorAt s (i - 1) j = colorAt s i j \<and> colorAt s (i - 2) j = colorAt s i j"
  using assms tileAt_int [of s i 0 j 0] tileAt_int [of s i 1 j 0] tileAt_int [of s i 2 j 0]
  by (auto simp: isVerticalMatch_def sameColors_def colorAt_def Let_def)

lemma matchInBoard_iff:
  "matchInBoard s \<longleftrightarrow> (\<exists>r<gridSize. \<exists>c<gridSize. onHorizontalRun s r c \<or> onVerticalRun s r c)"
proof
  assume "matchInBoard s"
  then obtain i j where ij: "i < gridSize" "j < gridSize" "isMatch s (int i) (int j)"
    unfolding matchInBoard_def list_ex_iff by auto
  from ij(3) show "\<exists>r<gridSize. \<exists>c<gridSize. onHorizontalRun s r c \<or> onVerticalRun s r c"
    unfolding isMatch_def
  proof
    assume "isHorizontalMatch s (int i) (int j)"
    then have "2 \<le> j" "colorAt s i (j - 1) = colorAt s i j" "colorAt s i (j - 2) = colorAt s i j"
      using isHorizontalMatch_iff [OF ij(1,2)] by auto
    then have "onHorizontalRun s i j"
      unfolding onHorizontalRun_def inRun3_iff using ij(2)
      by (intro exI [of _ "j - 2"]) (auto simp: numeral_2_eq_2 Suc_diff_Suc)
    then show ?thesis using ij by blast
  next
    assume "isVerticalMatch s (int i) (int j)"
    then have "2 \<le> i" "colorAt s (i - 1) j = colorAt s i j" "colorAt s (i - 2) j = colorAt s i j"
      using isVerticalMatch_iff [OF ij(1,2)] by auto
    then have "onVerticalRun s i j"
      unfolding onVerticalRun_def inRun3_iff using ij(1)
      by (intro exI [of _ "i - 2"]) (auto simp: numeral_2_eq_2 Suc_diff_Suc)
    then show ?thesis using ij by blast
  qed
next
  assume "\<exists>r<gridSize. \<exists>c<gridSize. onHorizontalRun s r c \<or> onVerticalRun s r c"
  then obtain r c where rc: "r < gridSize" "c < gridSize" "onHorizontalRun s r c \<or> onVerticalRun s r c"
    by blast
  from rc(3) have "\<exists>i<gridSize. \<exists>j<gridSize. isMatch s (int i) (int j)"
  proof
    assume "onHorizontalRun s r c"
    then obtain m where m: "m + 2 < gridSize" "colorAt s r m = colorAt s r (m + 1)"
        "colorAt s r (m + 1) = colorAt s r (m + 2)"
      unfolding onHorizontalRun_def inRun3_iff by blast
    have "isHorizontalMatch s (int r) (int (m + 2))"
      using isHorizontalMatch_iff [OF rc(1) m(1)] m(2,3) by simp
    then show ?thesis unfolding isMatch_def using rc(1) m(1) by blast
  next
    assume "onVerticalRun s r c"
    then obtain m where m: "m + 2 < gridSize" "colorAt s m c = colorAt s (m + 1) c"
        "colorAt s (m + 1) c = colorAt s (m + 2) c"
      unfolding onVerticalRun_def inRun3_iff by blast
    have "isVerticalMatch s (int (m + 2)) (int c)"
      using isVerticalMatch_iff [OF m(1) rc(2)] m(2,3) by simp
    then show ?thesis unfolding isMatch_def using rc(2) m(1) by blast
  qed
  then show "matchInBoard s"
    unfolding matchInBoard_def list_ex_iff by fastforce
qed

section \<open>Detector agreement\<close>

lemma count_fold:
  "fold (\<lambda>j total. if P j then total + 1 else total) xs (t::nat) = t + length (filter P xs)"
  by (induction xs arbitrary: t) auto

lemma count_fold2:
  "fold (\<lambda>i. fold (\<lambda>j total. if P i j then total + 1 else total) ys) xs (t::nat)
     = t + (\<Sum>i\<leftarrow>xs. length (filter (P i) ys))"
  by (induction xs arbitrary: t) (auto simp: count_fold)

lemma maskNonEmpty_iff:
  "maskNonEmpty s \<longleftrightarrow> (\<exists>r<gridSize. \<exists>c<gridSize. 0 < removeMap s ! r ! c)"
  unfolding maskNonEmpty_def list_ex_iff by (simp add: Bex_def)

lemma totalToDestroy_pos: "totalToDestroy s \<noteq> 0 \<longleftrightarrow> maskNonEmpty s"
proof -
  let ?P = "\<lambda>i j. removeMap s ! i ! j > 0"
  have eq: "totalToDestroy s = (\<Sum>i\<leftarrow>[0..<gridSize]. length (filter (?P i) [0..<gridSize]))"
    unfolding totalToDestroy_def by (simp add: count_fold2)
  have "(\<Sum>i\<leftarrow>[0..<gridSize]. length (filter (?P i) [0..<gridSize])) = 0
      \<longleftrightarrow> (\<forall>i<gridSize. \<forall>j<gridSize. \<not> ?P i j)"
    by (auto simp: sum_list_eq_0_iff filter_empty_conv)
  then show ?thesis unfolding eq maskNonEmpty_iff by simp
qed

lemma scan_nonEmpty:
  assumes "colorsOk s"
  shows "maskNonEmpty (scanBoard s) \<longleftrightarrow> matchInBoard s"
proof -
  have "\<And>r c. r < gridSize \<Longrightarrow> c < gridSize \<Longrightarrow>
      0 < removeMap (scanBoard s) ! r ! c \<longleftrightarrow> onHorizontalRun s r c \<or> onVerticalRun s r c"
    by (simp add: mask_value [OF assms])
  then show ?thesis unfolding maskNonEmpty_iff matchInBoard_iff by blast
qed

text \<open>
  C9. For every \<open>gridSize \<times> gridSize\<close> grid whose colours are not negative,
  \<open>matchInBoard\<close> answers true exactly when the mask that \<open>markMatches\<close> builds in both
  directions has an entry above zero; so \<open>destroyMarkedTiles\<close>, entered after a true
  \<open>matchInBoard\<close>, counts at least one tile and does not take its empty-mask branch.
\<close>

theorem detector_agreement:
  assumes "gridOk s" and "colorsOk s"
  shows "(matchInBoard s \<longleftrightarrow> maskNonEmpty (scanBoard s))
       \<and> (matchInBoard s \<longleftrightarrow> totalToDestroy (scanBoard s) \<noteq> 0)"
  using scan_nonEmpty [OF assms(2)] totalToDestroy_pos [of "scanBoard s"] by auto

theorem detector_agreement_witness:
  "gridOk (sceneOf boardRuns []) \<and> colorsOk (sceneOf boardRuns [])
   \<and> matchInBoard (sceneOf boardRuns [])
   \<and> maskNonEmpty (scanBoard (sceneOf boardRuns []))
   \<and> totalToDestroy (scanBoard (sceneOf boardRuns [])) \<noteq> 0
   \<and> gridOk (sceneOf boardSettled []) \<and> colorsOk (sceneOf boardSettled [])
   \<and> \<not> matchInBoard (sceneOf boardSettled [])
   \<and> \<not> maskNonEmpty (scanBoard (sceneOf boardSettled []))
   \<and> totalToDestroy (scanBoard (sceneOf boardSettled [])) = 0"
proof -
  have g: "gridOk (sceneOf boardRuns [])" by code_simp
  have c: "colorsOk (sceneOf boardRuns [])" by code_simp
  have m: "matchInBoard (sceneOf boardRuns [])" by code_simp
  have g': "gridOk (sceneOf boardSettled [])" by code_simp
  have c': "colorsOk (sceneOf boardSettled [])" by code_simp
  have m': "\<not> matchInBoard (sceneOf boardSettled [])" by code_simp
  show ?thesis
    using detector_agreement [OF g c] detector_agreement [OF g' c'] g c m g' c' m' by simp
qed

section \<open>The mask on concrete shapes, and holes\<close>

lemma onHorizontalRun_window:
  assumes "j + 2 < gridSize" "colorAt s i j = colorAt s i (j + 1)" "colorAt s i (j + 1) = colorAt s i (j + 2)"
    and "j \<le> c" "c \<le> j + 2"
  shows "onHorizontalRun s i c"
  unfolding onHorizontalRun_def inRun3_iff using assms by (intro exI [of _ j]) simp

lemma inOccupiedRun3_iff:
  "inOccupiedRun3 f occ n k \<longleftrightarrow>
     (\<exists>m. m \<le> k \<and> k \<le> m + 2 \<and> m + 2 < n \<and> occ m \<and> occ (m + 1) \<and> occ (m + 2)
          \<and> f m = f (m + 1) \<and> f (m + 1) = f (m + 2))"
  unfolding inOccupiedRun3_def list_ex_iff by auto

lemma occupied_run_is_run: "inOccupiedRun3 f occ n k \<Longrightarrow> inRun3 f n k"
  unfolding inOccupiedRun3_iff inRun3_iff by auto

lemma full_run_is_occupied:
  assumes "\<And>m. m < n \<Longrightarrow> occ m" and "inRun3 f n k"
  shows "inOccupiedRun3 f occ n k"
proof -
  from assms(2) obtain m where m: "m \<le> k" "k \<le> m + 2" "m + 2 < n"
      "f m = f (m + 1)" "f (m + 1) = f (m + 2)"
    unfolding inRun3_iff by auto
  have "occ m" "occ (m + 1)" "occ (m + 2)" using m(3) by (simp_all add: assms(1))
  then show ?thesis unfolding inOccupiedRun3_iff using m by auto
qed

lemma onOccupiedHorizontalRun_window:
  assumes "j + 2 < gridSize" "colorAt s i j = colorAt s i (j + 1)" "colorAt s i (j + 1) = colorAt s i (j + 2)"
    and "\<not> emptyAt s i j" "\<not> emptyAt s i (j + 1)" "\<not> emptyAt s i (j + 2)"
    and "j \<le> c" "c \<le> j + 2"
  shows "onOccupiedHorizontalRun s i c"
  unfolding onOccupiedHorizontalRun_def inOccupiedRun3_iff using assms by (intro exI [of _ j]) simp

text \<open>
  C6, as the code has it. In a \<open>gridSize \<times> gridSize\<close> grid with non-negative colours,
  where four consecutive occupied cells of a row read \<open>A, A, A, B\<close> with \<open>A \<noteq> B\<close>, the
  full-board scan gives each of the first three cells a count of at least one; and, when
  the row and the column of the fourth cell hold no unoccupied cell, it gives the fourth a
  count of zero if the fourth lies on no run of three or more occupied cells of its own
  colour (to its right in the row, or in its column). A cell that lies on a horizontal
  run and on a vertical run of three or more occupied cells has the count two.
\<close>

theorem mask_shapes:
  assumes "gridOk s" and "colorsOk s"
  shows "(i < gridSize \<and> j + 3 < gridSize
           \<and> \<not> emptyAt s i j \<and> \<not> emptyAt s i (j + 1) \<and> \<not> emptyAt s i (j + 2)
           \<and> \<not> emptyAt s i (j + 3)
           \<and> colorAt s i j = a \<and> colorAt s i (j + 1) = a \<and> colorAt s i (j + 2) = a
           \<and> colorAt s i (j + 3) = b \<and> a \<noteq> b
          \<longrightarrow> 1 \<le> removeMap (scanBoard s) ! i ! j
            \<and> 1 \<le> removeMap (scanBoard s) ! i ! (j + 1)
            \<and> 1 \<le> removeMap (scanBoard s) ! i ! (j + 2)
            \<and> (rowFull s i \<and> colFull s (j + 3)
                 \<and> \<not> onOccupiedHorizontalRun s i (j + 3) \<and> \<not> onOccupiedVerticalRun s i (j + 3)
                 \<longrightarrow> removeMap (scanBoard s) ! i ! (j + 3) = 0))
       \<and> (r < gridSize \<and> c < gridSize
           \<and> onOccupiedHorizontalRun s r c \<and> onOccupiedVerticalRun s r c
          \<longrightarrow> removeMap (scanBoard s) ! r ! c = 2)"
proof (intro conjI impI)
  assume h: "i < gridSize \<and> j + 3 < gridSize
           \<and> \<not> emptyAt s i j \<and> \<not> emptyAt s i (j + 1) \<and> \<not> emptyAt s i (j + 2)
           \<and> \<not> emptyAt s i (j + 3)
           \<and> colorAt s i j = a \<and> colorAt s i (j + 1) = a \<and> colorAt s i (j + 2) = a
           \<and> colorAt s i (j + 3) = b \<and> a \<noteq> b"
  then have "\<And>c. j \<le> c \<Longrightarrow> c \<le> j + 2 \<Longrightarrow> onOccupiedHorizontalRun s i c"
    by (intro onOccupiedHorizontalRun_window [of j]) simp_all
  then have run: "\<And>c. j \<le> c \<Longrightarrow> c \<le> j + 2 \<Longrightarrow> onHorizontalRun s i c"
    unfolding onOccupiedHorizontalRun_def onHorizontalRun_def by (rule occupied_run_is_run)
  from h have lt: "i < gridSize" "j < gridSize" "j + 1 < gridSize" "j + 2 < gridSize" "j + 3 < gridSize"
    by simp_all
  show "1 \<le> removeMap (scanBoard s) ! i ! j"
    using run [of j] unfolding mask_value [OF assms(2) lt(1) lt(2)] by simp
  show "1 \<le> removeMap (scanBoard s) ! i ! (j + 1)"
    using run [of "j + 1"] unfolding mask_value [OF assms(2) lt(1) lt(3)] by simp
  show "1 \<le> removeMap (scanBoard s) ! i ! (j + 2)"
    using run [of "j + 2"] unfolding mask_value [OF assms(2) lt(1) lt(4)] by simp
  assume f: "rowFull s i \<and> colFull s (j + 3)
       \<and> \<not> onOccupiedHorizontalRun s i (j + 3) \<and> \<not> onOccupiedVerticalRun s i (j + 3)"
  have "\<not> onHorizontalRun s i (j + 3)"
  proof
    assume "onHorizontalRun s i (j + 3)"
    then have "onOccupiedHorizontalRun s i (j + 3)"
      unfolding onOccupiedHorizontalRun_def onHorizontalRun_def
      using f by (intro full_run_is_occupied) (simp_all add: rowFull_def list_all_iff)
    then show False using f by simp
  qed
  moreover have "\<not> onVerticalRun s i (j + 3)"
  proof
    assume "onVerticalRun s i (j + 3)"
    then have "onOccupiedVerticalRun s i (j + 3)"
      unfolding onOccupiedVerticalRun_def onVerticalRun_def
      using f by (intro full_run_is_occupied) (simp_all add: colFull_def list_all_iff)
    then show False using f by simp
  qed
  ultimately show "removeMap (scanBoard s) ! i ! (j + 3) = 0"
    unfolding mask_value [OF assms(2) lt(1) lt(5)] by simp
next
  assume o: "r < gridSize \<and> c < gridSize
       \<and> onOccupiedHorizontalRun s r c \<and> onOccupiedVerticalRun s r c"
  then have "onHorizontalRun s r c" "onVerticalRun s r c"
    unfolding onOccupiedHorizontalRun_def onHorizontalRun_def
      onOccupiedVerticalRun_def onVerticalRun_def
    by (auto intro: occupied_run_is_run)
  then show "removeMap (scanBoard s) ! r ! c = 2"
    using o by (simp add: mask_value [OF assms(2)])
qed

theorem mask_shapes_witness:
  "gridOk (sceneOf boardCross []) \<and> colorsOk (sceneOf boardCross [])
   \<and> \<not> emptyAt (sceneOf boardCross []) 0 0 \<and> \<not> emptyAt (sceneOf boardCross []) 0 1
   \<and> \<not> emptyAt (sceneOf boardCross []) 0 2 \<and> \<not> emptyAt (sceneOf boardCross []) 0 3
   \<and> colorAt (sceneOf boardCross []) 0 0 = 1 \<and> colorAt (sceneOf boardCross []) 0 1 = 1
   \<and> colorAt (sceneOf boardCross []) 0 2 = 1 \<and> colorAt (sceneOf boardCross []) 0 3 = 2
   \<and> rowFull (sceneOf boardCross []) 0 \<and> colFull (sceneOf boardCross []) 3
   \<and> \<not> onOccupiedHorizontalRun (sceneOf boardCross []) 0 3
   \<and> \<not> onOccupiedVerticalRun (sceneOf boardCross []) 0 3
   \<and> onOccupiedHorizontalRun (sceneOf boardCross []) 0 0
   \<and> onOccupiedVerticalRun (sceneOf boardCross []) 0 0
   \<and> removeMap (scanBoard (sceneOf boardCross [])) ! 0 ! 0 = 2
   \<and> 1 \<le> removeMap (scanBoard (sceneOf boardCross [])) ! 0 ! 1
   \<and> 1 \<le> removeMap (scanBoard (sceneOf boardCross [])) ! 0 ! 2
   \<and> removeMap (scanBoard (sceneOf boardCross [])) ! 0 ! 3 = 0"
proof -
  let ?s = "sceneOf boardCross []"
  have g: "gridOk ?s" by code_simp
  have c: "colorsOk ?s" by code_simp
  have occ: "\<not> emptyAt ?s 0 0" "\<not> emptyAt ?s 0 1" "\<not> emptyAt ?s 0 2" "\<not> emptyAt ?s 0 3"
    by code_simp+
  have row: "colorAt ?s 0 0 = 1" "colorAt ?s 0 1 = 1" "colorAt ?s 0 2 = 1" "colorAt ?s 0 3 = 2"
    by code_simp+
  have full: "rowFull ?s 0" "colFull ?s 3" by code_simp+
  have no: "\<not> onOccupiedHorizontalRun ?s 0 3" "\<not> onOccupiedVerticalRun ?s 0 3" by code_simp+
  have yes: "onOccupiedHorizontalRun ?s 0 0" "onOccupiedVerticalRun ?s 0 0" by code_simp+
  have n: "(0::nat) < gridSize" "(3::nat) < gridSize" "(1::int) \<noteq> 2" by (simp_all add: gridSize_def)
  have e: "(0::nat) + 1 = 1" "(0::nat) + 2 = 2" "(0::nat) + 3 = 3" by simp_all
  note inst = mask_shapes [OF g c, of 0 0 1 2 0 0, unfolded e]
  show ?thesis
    using inst g c occ row full no yes n by blast
qed

text \<open>
  The claim as it is written fails: this board has no unoccupied cell, its row 0 reads
  \<open>1, 1, 1, 2\<close> in its first four cells, and the fourth cell is counted, because it heads
  a vertical run of three.
\<close>

theorem mask_shapes_counterexample:
  "noHoles (sceneOf boardRuns [])
   \<and> colorAt (sceneOf boardRuns []) 0 0 = 1 \<and> colorAt (sceneOf boardRuns []) 0 1 = 1
   \<and> colorAt (sceneOf boardRuns []) 0 2 = 1 \<and> colorAt (sceneOf boardRuns []) 0 3 = 2
   \<and> removeMap (scanBoard (sceneOf boardRuns [])) ! 0 ! 3 = 1"
  by code_simp

text \<open>
  C2. The scan does not treat an unoccupied cell as a break: \<open>tileAt\<close> returns the tile
  of a hole like any other, so a hole whose stale colour continues a run is counted. Here
  cell \<open>(0, 1)\<close> is a hole between two tiles of its colour and gets the count one.
\<close>

theorem hole_counted_in_mask:
  "emptyAt (sceneOf boardRuns [(0, 1)]) 0 1
   \<and> removeMap (scanBoard (sceneOf boardRuns [(0, 1)])) ! 0 ! 1 = 1
   \<and> removeMap (scanBoard (sceneOf boardRuns [(0, 1)])) ! 0 ! 0 = 1
   \<and> removeMap (scanBoard (sceneOf boardRuns [(0, 1)])) ! 0 ! 2 = 1"
  by code_simp

section \<open>The empty-mask pass\<close>

lemma holesInCol_filter:
  "holesInCol s col = length (filter (\<lambda>i. emptyAt s i col) [0..<gridSize])"
  by (simp add: holesInCol_def emptyAt_def count_fold)

lemma holesBelow_filter:
  "holesBelow s row col = length (filter (\<lambda>i. emptyAt s i col) [row + 1..<gridSize])"
  by (simp add: holesBelow_def emptyAt_def count_fold)

lemma sum_fold: "fold (\<lambda>j total. total + f j) xs (t::nat) = t + sum_list (map f xs)"
  by (induction xs arbitrary: t) auto

lemma noHoles_holesInCol: "noHoles s \<Longrightarrow> j < gridSize \<Longrightarrow> holesInCol s j = 0"
  by (auto simp: noHoles_def holesInCol_filter list_all_iff filter_empty_conv)

lemma replenishField_noHoles:
  assumes "noHoles s"
  shows "replenishField s = s\<lparr>canPick := True, selectedTile := None\<rparr>"
proof -
  have "fold (\<lambda>j total. total + holesInCol s j) [0..<gridSize] 0 = 0"
    using noHoles_holesInCol [OF assms] by (simp add: sum_fold sum_list_eq_0_iff)
  then show ?thesis by (simp add: replenishField_def)
qed

lemma holesInCol_noHoles: "\<not> noHoles s \<Longrightarrow> \<exists>j<gridSize. 0 < holesInCol s j"
  by (auto simp: noHoles_def holesInCol_filter list_all_iff filter_empty_conv)

lemma fold_keeps:
  assumes "\<And>x s. g (f x s) = g s"
  shows "g (fold f xs s) = g s"
  by (induction xs arbitrary: s) (simp_all add: assms)

lemma fold_no_new_hole:
  assumes "\<And>x s. isEmpty (tileHeap (f x s) t) \<Longrightarrow> isEmpty (tileHeap s t)"
    and "isEmpty (tileHeap (fold f xs s) t)"
  shows "isEmpty (tileHeap s t)"
  using assms(2) by (induction xs arbitrary: s) (auto dest: assms(1))

lemma replenishTile_keeps:
  "tileArray (replenishTile c j e i s) = tileArray s"
  "canPick (replenishTile c j e i s) = canPick s"
  by (simp_all add: replenishTile_def Let_def setTile_def setSprite_def addTween_def nextRandom_def)

lemma replenishTile_no_new_hole:
  "isEmpty (tileHeap (replenishTile c j e i s) t) \<Longrightarrow> isEmpty (tileHeap s t)"
  by (simp add: replenishTile_def Let_def setTile_def setSprite_def addTween_def nextRandom_def
      split: if_splits)

lemma replenishCol_keeps:
  "tileArray (replenishCol c j s) = tileArray s"
  "canPick (replenishCol c j s) = canPick s"
  by (simp_all add: replenishCol_def Let_def replenishTile_keeps
      fold_keeps [where g = tileArray] fold_keeps [where g = canPick])

lemma replenishCol_no_new_hole:
  assumes "isEmpty (tileHeap (replenishCol c j s) t)"
  shows "isEmpty (tileHeap s t)"
proof (cases "0 < holesInCol s j")
  case True
  then have "isEmpty (tileHeap (fold (replenishTile c j (holesInCol s j)) [0..<holesInCol s j] s) t)"
    using assms by (simp add: replenishCol_def Let_def)
  then show ?thesis by (rule fold_no_new_hole [rotated]) (rule replenishTile_no_new_hole)
next
  case False
  then show ?thesis using assms by (simp add: replenishCol_def Let_def)
qed

text \<open>\<open>replenishField\<close> rewrites tiles only: it moves none and marks none unoccupied.\<close>

lemma replenishField_tileArray: "tileArray (replenishField s) = tileArray s"
  by (simp add: replenishField_def Let_def replenishCol_keeps fold_keeps [where g = tileArray])

lemma replenishField_no_new_hole:
  assumes "isEmpty (tileHeap (replenishField s) t)"
  shows "isEmpty (tileHeap s t)"
proof (cases "fold (\<lambda>j total. total + holesInCol s j) [0..<gridSize] 0 = 0")
  case True
  then show ?thesis using assms by (simp add: replenishField_def)
next
  case False
  let ?s1 = "s\<lparr>counters := (counters s)(nextCounter s := 0), nextCounter := Suc (nextCounter s)\<rparr>"
  have "isEmpty (tileHeap (fold (replenishCol (nextCounter s)) [0..<gridSize] ?s1) t)"
    using assms False by (simp add: replenishField_def Let_def)
  then have "isEmpty (tileHeap ?s1 t)"
    by (rule fold_no_new_hole [rotated]) (rule replenishCol_no_new_hole)
  then show ?thesis by simp
qed

text \<open>With a hole to fill, \<open>replenishField\<close> leaves the lock as it is.\<close>

lemma replenishField_holes_canPick:
  assumes "\<not> noHoles s"
  shows "canPick (replenishField s) = canPick s"
proof -
  obtain j where j: "j < gridSize" "0 < holesInCol s j"
    using holesInCol_noHoles [OF assms] by blast
  have "\<exists>n\<in>set (map (holesInCol s) [0..<gridSize]). n \<noteq> 0"
    using j by (intro bexI [of _ "holesInCol s j"]) simp_all
  then have "sum_list (map (holesInCol s) [0..<gridSize]) \<noteq> 0"
    by (simp add: sum_list_eq_0_iff)
  then have "fold (\<lambda>j total. total + holesInCol s j) [0..<gridSize] 0 \<noteq> 0"
    by (simp add: sum_fold)
  then show ?thesis
    by (simp add: replenishField_def Let_def replenishCol_keeps fold_keeps [where g = canPick])
qed

text \<open>
  C7. When every entry of the removal mask is zero, \<open>destroyMarkedTiles\<close> logs the warning
  and hands the scene, otherwise as it was given, straight to \<open>replenishField\<close>: nothing is
  destroyed, the grid holds the same tile objects, and no cell that was occupied is
  unoccupied afterwards. If the grid has no hole the scene that results differs from the
  one given only in the logged warning, \<open>canPick = true\<close> and \<open>selectedTile = null\<close>: no
  tile, sprite or tween is touched. If it has a hole the refill runs and the lock stays as
  it was.
\<close>

theorem empty_mask_noop:
  assumes "\<not> maskNonEmpty s"
  shows "destroyMarkedTiles s =
           replenishField
             (s\<lparr>warnings := warnings s @ [''No tiles to destroy, but destroyMarkedTiles was called'']\<rparr>)
       \<and> tileArray (destroyMarkedTiles s) = tileArray s
       \<and> (\<forall>i j. emptyAt (destroyMarkedTiles s) i j \<longrightarrow> emptyAt s i j)
       \<and> (noHoles s \<longrightarrow>
            destroyMarkedTiles s =
              s\<lparr>warnings := warnings s @ [''No tiles to destroy, but destroyMarkedTiles was called''],
                canPick := True, selectedTile := None\<rparr>)
       \<and> (\<not> noHoles s \<longrightarrow> canPick (destroyMarkedTiles s) = canPick s)"
proof -
  let ?s1 = "s\<lparr>warnings := warnings s @ [''No tiles to destroy, but destroyMarkedTiles was called'']\<rparr>"
  have z: "totalToDestroy s = 0" using totalToDestroy_pos [of s] assms by simp
  have d: "destroyMarkedTiles s = replenishField ?s1" using z by (simp add: destroyMarkedTiles_def)
  have ta: "tileArray (destroyMarkedTiles s) = tileArray s"
    unfolding d by (simp add: replenishField_tileArray)
  have e: "\<And>i j. emptyAt (destroyMarkedTiles s) i j \<Longrightarrow> emptyAt s i j"
  proof -
    fix i j assume "emptyAt (destroyMarkedTiles s) i j"
    then have "isEmpty (tileHeap (replenishField ?s1) (tileArray s ! i ! j))"
      unfolding emptyAt_def ta unfolding d .
    then have "isEmpty (tileHeap ?s1 (tileArray s ! i ! j))" by (rule replenishField_no_new_hole)
    then show "emptyAt s i j" by (simp add: emptyAt_def)
  qed
  have nh: "noHoles ?s1 = noHoles s" by (simp add: noHoles_def emptyAt_def)
  have full: "destroyMarkedTiles s = ?s1\<lparr>canPick := True, selectedTile := None\<rparr>" if "noHoles s"
    unfolding d using that nh by (simp add: replenishField_noHoles)
  have holed: "canPick (destroyMarkedTiles s) = canPick s" if "\<not> noHoles s"
    unfolding d using that nh by (simp add: replenishField_holes_canPick)
  show ?thesis using d ta e full holed by blast
qed

theorem empty_mask_noop_witness:
  "\<not> maskNonEmpty (resetRemoveMap (idleScene\<lparr>canPick := False\<rparr>))
   \<and> noHoles (resetRemoveMap (idleScene\<lparr>canPick := False\<rparr>))
   \<and> destroyMarkedTiles (resetRemoveMap (idleScene\<lparr>canPick := False\<rparr>)) =
       (resetRemoveMap (idleScene\<lparr>canPick := False\<rparr>))
         \<lparr>warnings := [''No tiles to destroy, but destroyMarkedTiles was called''],
          canPick := True, selectedTile := None\<rparr>
   \<and> \<not> maskNonEmpty (resetRemoveMap (pooledScene\<lparr>canPick := False\<rparr>))
   \<and> \<not> noHoles (resetRemoveMap (pooledScene\<lparr>canPick := False\<rparr>))
   \<and> destroyMarkedTiles (resetRemoveMap (pooledScene\<lparr>canPick := False\<rparr>)) =
       replenishField
         ((resetRemoveMap (pooledScene\<lparr>canPick := False\<rparr>))
            \<lparr>warnings := [''No tiles to destroy, but destroyMarkedTiles was called'']\<rparr>)
   \<and> \<not> canPick (destroyMarkedTiles (resetRemoveMap (pooledScene\<lparr>canPick := False\<rparr>)))"
proof -
  let ?s = "resetRemoveMap (idleScene\<lparr>canPick := False\<rparr>)"
  let ?h = "resetRemoveMap (pooledScene\<lparr>canPick := False\<rparr>)"
  have b: "\<not> maskNonEmpty ?s" "noHoles ?s" by code_simp+
  have c: "\<not> maskNonEmpty ?h" "\<not> noHoles ?h" by code_simp+
  have w: "warnings ?s = []" "warnings ?h = []" "\<not> canPick ?h"
    by (simp_all add: resetRemoveMap_def idleScene_def pooledScene_def sceneOf_def)
  note full = empty_mask_noop [OF b(1), unfolded w(1) append_Nil]
  note holed = empty_mask_noop [OF c(1), unfolded w(2) append_Nil]
  have one: "destroyMarkedTiles ?s =
       ?s\<lparr>warnings := [''No tiles to destroy, but destroyMarkedTiles was called''],
          canPick := True, selectedTile := None\<rparr>"
    using full b(2) by blast
  have two: "destroyMarkedTiles ?h =
       replenishField (?h\<lparr>warnings := [''No tiles to destroy, but destroyMarkedTiles was called'']\<rparr>)"
    using holed by blast
  have "canPick (destroyMarkedTiles ?h) = canPick ?h"
    using holed c(2) by blast
  then have three: "\<not> canPick (destroyMarkedTiles ?h)"
    using w(3) by simp
  show ?thesis using b c one two three by blast
qed

section \<open>Pointer input\<close>

lemma swipeDelta_cases:
  "swipeDelta dx dy =
     ((if dy < - real_of_int tileSize / 2 \<and> \<bar>dx\<bar> < real_of_int tileSize / 4 then 1
       else if dy > real_of_int tileSize / 2 \<and> \<bar>dx\<bar> < real_of_int tileSize / 4 then - 1 else 0),
      (if dx < - real_of_int tileSize / 2 \<and> \<bar>dy\<bar> < real_of_int tileSize / 4 then 1
       else if dx > real_of_int tileSize / 2 \<and> \<bar>dy\<bar> < real_of_int tileSize / 4 then - 1 else 0))"
  by (simp add: swipeDelta_def Let_def tileSize_def)

text \<open>
  C8, as the code has it. \<open>startSwipe\<close> acts only while a tile is selected and the drag
  is on (\<open>dragging\<close>, set by a pick and cleared by the release and by a swipe that swapped).
  Then, with \<open>dx\<close> and \<open>dy\<close> the displacements since pointer-down as the handler computes
  them, it looks up a neighbour and tries the swap exactly when the displacement exceeds
  half a tile on one axis and stays under a quarter tile on the other; in every other
  case, and whenever the drag is off, the scene is left as it is. The four direction
  tests exclude one another, and each gives its own neighbour.
\<close>

theorem drag_interpretation:
  assumes "selectedTile s = Some sel"
    and "dx = numSub (downX p) (px p)" and "dy = numSub (downY p) (py p)"
    and "h = real_of_int tileSize / 2" and "q = real_of_int tileSize / 4"
  shows "(fst (swipeDelta dx dy) + snd (swipeDelta dx dy) \<noteq> 0
            \<longleftrightarrow> (\<bar>dx\<bar> > h \<and> \<bar>dy\<bar> < q) \<or> (\<bar>dy\<bar> > h \<and> \<bar>dx\<bar> < q))
       \<and> \<not> ((dx > h \<and> \<bar>dy\<bar> < q) \<and> (dx < - h \<and> \<bar>dy\<bar> < q))
       \<and> \<not> ((dx > h \<and> \<bar>dy\<bar> < q) \<and> (dy > h \<and> \<bar>dx\<bar> < q))
       \<and> \<not> ((dx > h \<and> \<bar>dy\<bar> < q) \<and> (dy < - h \<and> \<bar>dx\<bar> < q))
       \<and> \<not> ((dx < - h \<and> \<bar>dy\<bar> < q) \<and> (dy > h \<and> \<bar>dx\<bar> < q))
       \<and> \<not> ((dx < - h \<and> \<bar>dy\<bar> < q) \<and> (dy < - h \<and> \<bar>dx\<bar> < q))
       \<and> \<not> ((dy > h \<and> \<bar>dx\<bar> < q) \<and> (dy < - h \<and> \<bar>dx\<bar> < q))
       \<and> swipeDelta dx dy =
            (if dx > h \<and> \<bar>dy\<bar> < q then (0, - 1)
             else if dx < - h \<and> \<bar>dy\<bar> < q then (0, 1)
             else if dy > h \<and> \<bar>dx\<bar> < q then (- 1, 0)
             else if dy < - h \<and> \<bar>dx\<bar> < q then (1, 0)
             else (0, 0))
       \<and> startSwipe s p =
            (if dragging s \<and> ((\<bar>dx\<bar> > h \<and> \<bar>dy\<bar> < q) \<or> (\<bar>dy\<bar> > h \<and> \<bar>dx\<bar> < q)) then
               (case tileAt s (getTileRow s sel + fst (swipeDelta dx dy))
                             (getTileCol s sel + snd (swipeDelta dx dy)) of
                  None \<Rightarrow> Some s
                | Some pickedTile \<Rightarrow>
                    map_option (\<lambda>s'. s'\<lparr>dragging := False\<rparr>)
                      (swapTiles (setSprite (tileSprite (tileHeap s sel))
                                    (\<lambda>sp. sp\<lparr>scaleXY := 1\<rparr>) s) sel pickedTile True))
             else Some s)"
proof -
  have hq: "h = 50" "q = 25" using assms(4,5) by (simp_all add: tileSize_def)
  have sd: "swipeDelta dx dy =
            (if dx > h \<and> \<bar>dy\<bar> < q then (0, - 1)
             else if dx < - h \<and> \<bar>dy\<bar> < q then (0, 1)
             else if dy > h \<and> \<bar>dx\<bar> < q then (- 1, 0)
             else if dy < - h \<and> \<bar>dx\<bar> < q then (1, 0)
             else (0, 0))"
    unfolding swipeDelta_cases hq by (auto simp: tileSize_def)
  have att: "fst (swipeDelta dx dy) + snd (swipeDelta dx dy) \<noteq> 0
            \<longleftrightarrow> (\<bar>dx\<bar> > h \<and> \<bar>dy\<bar> < q) \<or> (\<bar>dy\<bar> > h \<and> \<bar>dx\<bar> < q)"
    unfolding sd hq by auto
  have excl: "\<not> ((dx > h \<and> \<bar>dy\<bar> < q) \<and> (dx < - h \<and> \<bar>dy\<bar> < q))"
       "\<not> ((dx > h \<and> \<bar>dy\<bar> < q) \<and> (dy > h \<and> \<bar>dx\<bar> < q))"
       "\<not> ((dx > h \<and> \<bar>dy\<bar> < q) \<and> (dy < - h \<and> \<bar>dx\<bar> < q))"
       "\<not> ((dx < - h \<and> \<bar>dy\<bar> < q) \<and> (dy > h \<and> \<bar>dx\<bar> < q))"
       "\<not> ((dx < - h \<and> \<bar>dy\<bar> < q) \<and> (dy < - h \<and> \<bar>dx\<bar> < q))"
       "\<not> ((dy > h \<and> \<bar>dx\<bar> < q) \<and> (dy < - h \<and> \<bar>dx\<bar> < q))"
    unfolding hq by auto
  have run: "startSwipe s p =
            (if dragging s \<and> fst (swipeDelta dx dy) + snd (swipeDelta dx dy) \<noteq> 0 then
               (case tileAt s (getTileRow s sel + fst (swipeDelta dx dy))
                             (getTileCol s sel + snd (swipeDelta dx dy)) of
                  None \<Rightarrow> Some s
                | Some pickedTile \<Rightarrow>
                    map_option (\<lambda>s'. s'\<lparr>dragging := False\<rparr>)
                      (swapTiles (setSprite (tileSprite (tileHeap s sel))
                                    (\<lambda>sp. sp\<lparr>scaleXY := 1\<rparr>) s) sel pickedTile True))
             else Some s)"
    using assms(1) unfolding startSwipe_def assms(2,3) [symmetric]
    by (cases "swipeDelta dx dy") (auto simp: Let_def split: option.splits)
  show ?thesis
    using att excl sd run by (simp only: simp_thms if_True if_False)
qed

theorem drag_interpretation_witness:
  "dragging dragScene \<and> selectedTile dragScene = Some 0
   \<and> numSub (downX dragOne) (px dragOne) = - 60 \<and> numSub (downY dragOne) (py dragOne) = 0
   \<and> swipeDelta (numSub (downX dragOne) (px dragOne)) (numSub (downY dragOne) (py dragOne)) = (0, 1)
   \<and> startSwipe dragScene dragOne =
        map_option (\<lambda>s'. s'\<lparr>dragging := False\<rparr>)
          (swapTiles (setSprite (tileSprite (tileHeap dragScene 0))
                        (\<lambda>sp. sp\<lparr>scaleXY := 1\<rparr>) dragScene) 0 1 True)
   \<and> map_option (\<lambda>s. rowColors s 0) (startSwipe dragScene dragOne) = Some [1, 0, 2, 3, 4, 5, 0]
   \<and> downX dragEdge - px dragEdge > 50
   \<and> numSub (downX dragEdge) (px dragEdge) = 50 \<and> numSub (downY dragEdge) (py dragEdge) = 0
   \<and> startSwipe dragScene dragEdge = Some dragScene"
proof -
  have h: "dragging dragScene" "selectedTile dragScene = Some 0"
    by (simp_all add: dragScene_def)
  have d: "numSub (downX dragOne) (px dragOne) = - 60" "numSub (downY dragOne) (py dragOne) = 0"
    by code_simp+
  have t: "tileAt dragScene (getTileRow dragScene 0 + 0) (getTileCol dragScene 0 + 1) = Some 1"
    by code_simp
  have r: "map_option (\<lambda>s. rowColors s 0) (startSwipe dragScene dragOne) = Some [1, 0, 2, 3, 4, 5, 0]"
    by code_simp
  have e: "downX dragEdge - px dragEdge > 50"
      "numSub (downX dragEdge) (px dragEdge) = 50" "numSub (downY dragEdge) (py dragEdge) = 0"
    by code_simp+
  note inst = drag_interpretation [OF h(2) refl refl refl refl, of dragOne]
  note edge = drag_interpretation [OF h(2) refl refl refl refl, of dragEdge]
  have one: "swipeDelta (numSub (downX dragOne) (px dragOne)) (numSub (downY dragOne) (py dragOne)) = (0, 1)"
      "startSwipe dragScene dragOne =
        map_option (\<lambda>s'. s'\<lparr>dragging := False\<rparr>)
          (swapTiles (setSprite (tileSprite (tileHeap dragScene 0))
                        (\<lambda>sp. sp\<lparr>scaleXY := 1\<rparr>) dragScene) 0 1 True)"
    using inst h t unfolding d by (simp_all add: tileSize_def)
  have two: "startSwipe dragScene dragEdge = Some dragScene"
    using edge unfolding e(2,3) by (simp add: tileSize_def)
  show ?thesis
    using h d one r e two by simp
qed

lemma startSwipe_released: "startSwipe (stopSwipe s) p = Some (stopSwipe s)"
  by (simp add: startSwipe_def stopSwipe_def split: option.splits)

text \<open>
  The claim as it is written fails: a selected tile alone does not make a move a swipe.
  After a tap on cell \<open>(0, 0)\<close> and the release, the tile is still selected and the drag is
  off; a move that has gone 60 to the right of the pointer-down position, straight, then
  leaves the scene as it is.
\<close>

theorem drag_interpretation_counterexample:
  "map_option selectedTile (map_option stopSwipe (tileSelect idleScene tapA)) = Some (Some 0)
   \<and> map_option dragging (map_option stopSwipe (tileSelect idleScene tapA)) = Some False
   \<and> numSub (downX dragOne) (px dragOne) = - 60 \<and> numSub (downY dragOne) (py dragOne) = 0
   \<and> real_of_int tileSize / 2 < \<bar>numSub (downX dragOne) (px dragOne)\<bar>
   \<and> \<bar>numSub (downY dragOne) (py dragOne)\<bar> < real_of_int tileSize / 4
   \<and> Option.bind (map_option stopSwipe (tileSelect idleScene tapA)) (\<lambda>s. startSwipe s dragOne)
        = map_option stopSwipe (tileSelect idleScene tapA)"
proof -
  have a: "map_option selectedTile (map_option stopSwipe (tileSelect idleScene tapA)) = Some (Some 0)"
      "map_option dragging (map_option stopSwipe (tileSelect idleScene tapA)) = Some False"
    by code_simp+
  have d: "numSub (downX dragOne) (px dragOne) = - 60" "numSub (downY dragOne) (py dragOne) = 0"
    by code_simp+
  have b: "Option.bind (map_option stopSwipe (tileSelect idleScene tapA)) (\<lambda>s. startSwipe s dragOne)
        = map_option stopSwipe (tileSelect idleScene tapA)"
    by (cases "tileSelect idleScene tapA") (simp_all add: startSwipe_released)
  show ?thesis using a b unfolding d by (simp add: tileSize_def)
qed

lemma tileSelect_locked: "\<not> canPick s \<Longrightarrow> tileSelect s p = Some s"
  by (simp add: tileSelect_def)

text \<open>
  C5. \<open>tileSelect\<close> is guarded by \<open>canPick\<close>, \<open>startSwipe\<close> is not: it tests only \<open>dragging\<close>
  and \<open>selectedTile\<close>. A tap that starts a swap leaves both set until the pointer is
  released, so a move of more than half a tile before the release starts a second swap
  while the first is pending. From the settled scene, after a tap on \<open>(0, 0)\<close>, a release
  and a tap on \<open>(0, 1)\<close>, picking is locked with two tweens pending; the drag then
  rewrites the row from \<open>1, 0, 2\<close> to \<open>1, 2, 1\<close> and adds two more tweens.
\<close>

theorem startSwipe_ignores_lock:
  "map_option canPick afterTaps = Some False
   \<and> map_option dragging afterTaps = Some True
   \<and> map_option (\<lambda>s. length (tweens s)) afterTaps = Some 2
   \<and> map_option (\<lambda>s. rowColors s 0) afterTaps = Some [1, 0, 2, 3, 4, 5, 0]
   \<and> map_option (\<lambda>s. rowColors s 0) (Option.bind afterTaps (\<lambda>s. startSwipe s dragRight))
        = Some [1, 2, 1, 3, 4, 5, 0]
   \<and> map_option (\<lambda>s. length (tweens s)) (Option.bind afterTaps (\<lambda>s. startSwipe s dragRight))
        = Some 4"
  by code_simp

section \<open>Compaction: one falling tile\<close>

lemma gridOk_row: "gridOk s \<Longrightarrow> i < gridSize \<Longrightarrow> length (tileArray s ! i) = gridSize"
  by (simp add: gridOk_def list_all_length)

lemma tileRefsOk_nth:
  "tileRefsOk s \<Longrightarrow> i < gridSize \<Longrightarrow> j < gridSize \<Longrightarrow> tileArray s ! i ! j < nextTile s"
  by (simp add: tileRefsOk_def list_all_iff)

lemma tileRefsOkI:
  "(\<And>i j. i < gridSize \<Longrightarrow> j < gridSize \<Longrightarrow> tileArray s ! i ! j < nextTile s) \<Longrightarrow> tileRefsOk s"
  by (simp add: tileRefsOk_def list_all_iff)

lemma setCell_gridOk: "gridOk s \<Longrightarrow> gridOk (setCell i j t s)"
  unfolding gridOk_def setCell_def list_all_length
  by (cases "i < length (tileArray s)") (auto simp: nth_list_update)

lemma setCell_nth:
  "gridOk s \<Longrightarrow> i < gridSize \<Longrightarrow> j < gridSize \<Longrightarrow>
   tileArray (setCell i j t s) ! r ! c = (if r = i \<and> c = j then t else tileArray s ! r ! c)"
  unfolding gridOk_def setCell_def list_all_length
  by (auto simp: nth_list_update)

lemma holesBelow_le: "holesBelow s i j \<le> gridSize - Suc i"
proof -
  have "length (filter (\<lambda>k. emptyAt s k j) [i + 1..<gridSize]) \<le> length [i + 1..<gridSize]"
    by (rule length_filter_le)
  then show ?thesis by (simp add: holesBelow_filter)
qed

lemma fallTile_stay:
  "emptyAt s i j \<or> holesBelow s i j = 0 \<Longrightarrow> fallTile j i s = s"
  by (auto simp: fallTile_def emptyAt_def Let_def)

lemma fallTile_move:
  assumes "gridOk s" "i < gridSize" "j < gridSize" "\<not> emptyAt s i j" "0 < holesBelow s i j"
  shows "tileArray (fallTile j i s) ! r ! c =
           (if r = i \<and> c = j then nextTile s
            else if r = i + holesBelow s i j \<and> c = j then tileArray s ! i ! j
            else tileArray s ! r ! c)"
    and "tileHeap (fallTile j i s) =
           (tileHeap s)(nextTile s := \<lparr>color = 0, tileSprite = nextSprite s, isEmpty = True\<rparr>)"
    and "nextTile (fallTile j i s) = Suc (nextTile s)"
    and "gridOk (fallTile j i s)"
proof -
  let ?h = "holesBelow s i j"
  let ?X = "tileArray s ! i ! j"
  have lt: "i + ?h < gridSize" using holesBelow_le [of s i j] assms(2,5) by arith
  define s1 where "s1 = setCell (i + ?h) j ?X s"
  define tw where "tw = \<lparr>target = tileSprite (tileHeap s1 ?X), toX = None,
      toY = Some (sy (spriteHeap s1 (tileSprite (tileHeap s1 ?X))) + int ?h * tileSize),
      toAlpha = None, duration = fallSpeed * int ?h, onComplete = NoCallback\<rparr>"
  define s3 where "s3 = (addTween tw s1)\<lparr>spriteHeap := (spriteHeap (addTween tw s1))(nextSprite s := newSprite 0 0),
      nextSprite := Suc (nextSprite s),
      tileHeap := (tileHeap s)(nextTile s := \<lparr>color = 0, tileSprite = nextSprite s, isEmpty = True\<rparr>),
      nextTile := Suc (nextTile s)\<rparr>"
  define s4 where "s4 = setCell i j (nextTile s) s3"
  have g1: "gridOk s1" unfolding s1_def using assms(1) by (rule setCell_gridOk)
  have ta3: "tileArray s3 = tileArray s1" by (simp add: s3_def addTween_def)
  have g3: "gridOk s3" using g1 by (simp add: gridOk_def ta3)
  have g4: "gridOk s4" unfolding s4_def using g3 by (rule setCell_gridOk)
  have res: "fallTile j i s = setSprite (tileSprite (tileHeap s4 (tileArray s4 ! i ! j)))
                 (\<lambda>sp. sp\<lparr>visible := False\<rparr>) s4"
    using assms(4,5)
    by (simp add: fallTile_def emptyAt_def Let_def s4_def s3_def tw_def s1_def
        setCell_def addTween_def)
  have ta: "tileArray (fallTile j i s) = tileArray s4" by (simp add: res setSprite_def)
  show "tileArray (fallTile j i s) ! r ! c =
           (if r = i \<and> c = j then nextTile s
            else if r = i + ?h \<and> c = j then ?X
            else tileArray s ! r ! c)"
    unfolding ta s4_def setCell_nth [OF g3 assms(2,3)] ta3 s1_def setCell_nth [OF assms(1) lt assms(3)]
    by simp
  show "tileHeap (fallTile j i s) =
           (tileHeap s)(nextTile s := \<lparr>color = 0, tileSprite = nextSprite s, isEmpty = True\<rparr>)"
    by (simp add: res setSprite_def s4_def setCell_def s3_def)
  show "nextTile (fallTile j i s) = Suc (nextTile s)"
    by (simp add: res setSprite_def s4_def setCell_def s3_def)
  show "gridOk (fallTile j i s)" using g4 by (simp add: gridOk_def ta)
qed

section \<open>Compaction: one column\<close>

lemma survivors_Cons:
  "i < gridSize \<Longrightarrow> survivors s j i =
     (if isEmpty (tileHeap s (tileArray s ! i ! j)) then survivors s j (Suc i)
      else tileArray s ! i ! j # survivors s j (Suc i))"
  by (simp add: survivors_def upt_conv_Cons)

lemma survivors_old:
  assumes "tileRefsOk s" "j < gridSize" "t \<in> set (survivors s j i)"
  shows "t < nextTile s \<and> \<not> isEmpty (tileHeap s t)"
  using assms tileRefsOk_nth [of s _ j] by (auto simp: survivors_def)

lemma holesBelow_suffix:
  "holesBelow s i j =
     length (filter (\<lambda>t. isEmpty (tileHeap s t)) (map (\<lambda>r. tileArray s ! r ! j) [Suc i..<gridSize]))"
  by (simp add: holesBelow_filter emptyAt_def filter_map comp_def)

lemma fallInv_base:
  assumes "gridOk s0" "tileRefsOk s0"
  shows "fallInv s0 j (gridSize - 1) s0"
proof -
  let ?i = "gridSize - 1"
  have i: "?i < gridSize" "Suc ?i = gridSize" using gridSize_pos by simp_all
  have up: "[?i..<gridSize] = [?i]" using i by (simp add: upt_conv_Cons)
  let ?X = "tileArray s0 ! ?i ! j"
  have "\<exists>fill. map (\<lambda>r. tileArray s0 ! r ! j) [?i..<gridSize] = fill @ survivors s0 j ?i
                 \<and> (\<forall>t\<in>set fill. isEmpty (tileHeap s0 t))"
  proof (cases "isEmpty (tileHeap s0 ?X)")
    case True
    then show ?thesis unfolding survivors_def up by (intro exI [of _ "[?X]"]) simp
  next
    case False
    then show ?thesis unfolding survivors_def up by (intro exI [of _ "[]"]) simp
  qed
  then show ?thesis using assms unfolding fallInv_def by auto
qed

lemma fallInv_step:
  assumes g0: "gridOk s0" and f0: "tileRefsOk s0" and j: "j < gridSize"
    and i: "Suc i < gridSize" and inv: "fallInv s0 j (Suc i) s'"
  shows "fallInv s0 j i (fallTile j i s')"
proof -
  let ?X = "tileArray s0 ! i ! j"
  from inv have g': "gridOk s'" and nt: "nextTile s0 \<le> nextTile s'" and f': "tileRefsOk s'"
    and old: "\<And>t. t < nextTile s0 \<Longrightarrow> tileHeap s' t = tileHeap s0 t"
    and fresh: "\<And>t. nextTile s0 \<le> t \<Longrightarrow> t < nextTile s' \<Longrightarrow> isEmpty (tileHeap s' t)"
    and same: "\<And>r c. c \<noteq> j \<or> r < Suc i \<Longrightarrow> tileArray s' ! r ! c = tileArray s0 ! r ! c"
    unfolding fallInv_def by blast+
  from inv obtain fill where
    suf: "map (\<lambda>r. tileArray s' ! r ! j) [Suc i..<gridSize] = fill @ survivors s0 j (Suc i)"
    and fe: "\<And>t. t \<in> set fill \<Longrightarrow> isEmpty (tileHeap s' t)"
    unfolding fallInv_def by blast
  have il: "i < gridSize" using i by simp
  have X': "tileArray s' ! i ! j = ?X" using same [of j i] by simp
  have Xold: "?X < nextTile s0" using tileRefsOk_nth [OF f0 il j] .
  have XE: "isEmpty (tileHeap s' ?X) = isEmpty (tileHeap s0 ?X)" using old [OF Xold] by simp
  have surv_ne: "\<And>t. t \<in> set (survivors s0 j (Suc i)) \<Longrightarrow> \<not> isEmpty (tileHeap s' t)"
    using survivors_old [OF f0 j] old by metis
  have hb: "holesBelow s' i j = length fill"
  proof -
    have "filter (\<lambda>t. isEmpty (tileHeap s' t)) (fill @ survivors s0 j (Suc i)) = fill"
      using fe surv_ne by (simp add: filter_empty_conv)
    then show ?thesis unfolding holesBelow_suffix suf by simp
  qed
  have fill_in: "\<And>t. t \<in> set fill \<Longrightarrow> t < nextTile s'"
  proof -
    fix t assume "t \<in> set fill"
    then have "t \<in> set (map (\<lambda>r. tileArray s' ! r ! j) [Suc i..<gridSize])" unfolding suf by simp
    then show "t < nextTile s'" using tileRefsOk_nth [OF f' _ j] by auto
  qed
  have up: "[i..<gridSize] = i # [Suc i..<gridSize]" using il by (simp add: upt_conv_Cons)
  show ?thesis
  proof (cases "isEmpty (tileHeap s0 ?X) \<or> fill = []")
    case True
    then have stay: "fallTile j i s' = s'"
      using XE X' hb by (intro fallTile_stay) (auto simp: emptyAt_def)
    have "\<exists>fill'. map (\<lambda>r. tileArray s' ! r ! j) [i..<gridSize] = fill' @ survivors s0 j i
                 \<and> (\<forall>t\<in>set fill'. isEmpty (tileHeap s' t))"
    proof (cases "isEmpty (tileHeap s0 ?X)")
      case True
      then show ?thesis
        unfolding up survivors_Cons [OF il] using suf fe XE X'
        by (intro exI [of _ "?X # fill"]) simp
    next
      case False
      with \<open>isEmpty (tileHeap s0 ?X) \<or> fill = []\<close> have "fill = []" by simp
      then show ?thesis
        unfolding up survivors_Cons [OF il] using suf False X'
        by (intro exI [of _ "[]"]) simp
    qed
    moreover have "\<forall>r c. c \<noteq> j \<or> r < i \<longrightarrow> tileArray s' ! r ! c = tileArray s0 ! r ! c"
      using same by auto
    ultimately show ?thesis
      unfolding stay fallInv_def using g' nt f' old fresh by blast
  next
    case False
    then have occ: "\<not> isEmpty (tileHeap s0 ?X)" and ne: "fill \<noteq> []" by auto
    then obtain ys y where fill: "fill = ys @ [y]" by (meson rev_exhaust)
    let ?h = "length fill"
    let ?s2 = "fallTile j i s'"
    have ne': "\<not> emptyAt s' i j" using occ XE X' by (simp add: emptyAt_def)
    have hpos: "0 < holesBelow s' i j" using ne hb by simp
    note mv = fallTile_move [OF g' il j ne' hpos]
    have ta: "\<And>r c. tileArray ?s2 ! r ! c =
           (if r = i \<and> c = j then nextTile s'
            else if r = i + ?h \<and> c = j then ?X
            else tileArray s' ! r ! c)"
      using mv(1) unfolding hb X' .
    have th: "tileHeap ?s2 =
           (tileHeap s')(nextTile s' := \<lparr>color = 0, tileSprite = nextSprite s', isEmpty = True\<rparr>)"
      by (rule mv(2))
    have nt2: "nextTile ?s2 = Suc (nextTile s')" by (rule mv(3))
    have g2: "gridOk ?s2" by (rule mv(4))
    have hlt: "i + ?h < gridSize"
      using holesBelow_le [of s' i j] hpos il unfolding hb by arith
    have f2: "tileRefsOk ?s2"
    proof (rule tileRefsOkI)
      fix r c assume "r < gridSize" "c < gridSize"
      then show "tileArray ?s2 ! r ! c < nextTile ?s2"
        using tileRefsOk_nth [OF f', of r c] Xold nt unfolding ta nt2 by auto
    qed
    have old2: "\<forall>t<nextTile s0. tileHeap ?s2 t = tileHeap s0 t"
      using old nt unfolding th by auto
    have fresh2: "\<forall>t. nextTile s0 \<le> t \<and> t < nextTile ?s2 \<longrightarrow> isEmpty (tileHeap ?s2 t)"
      using fresh unfolding th nt2 by (auto simp: less_Suc_eq)
    have same2: "\<forall>r c. c \<noteq> j \<or> r < i \<longrightarrow> tileArray ?s2 ! r ! c = tileArray s0 ! r ! c"
      using same unfolding ta by auto
    have tail: "map (\<lambda>r. tileArray ?s2 ! r ! j) [Suc i..<gridSize]
        = (map (\<lambda>r. tileArray s' ! r ! j) [Suc i..<gridSize])[?h - 1 := ?X]"
    proof (rule nth_equalityI)
      show "length (map (\<lambda>r. tileArray ?s2 ! r ! j) [Suc i..<gridSize])
          = length ((map (\<lambda>r. tileArray s' ! r ! j) [Suc i..<gridSize])[?h - 1 := ?X])"
        by simp
    next
      fix k assume "k < length (map (\<lambda>r. tileArray ?s2 ! r ! j) [Suc i..<gridSize])"
      then have k: "k < gridSize - Suc i" by simp
      have "Suc i + k = i + ?h \<longleftrightarrow> k = ?h - 1" using ne by (cases fill) auto
      then show "map (\<lambda>r. tileArray ?s2 ! r ! j) [Suc i..<gridSize] ! k
          = (map (\<lambda>r. tileArray s' ! r ! j) [Suc i..<gridSize])[?h - 1 := ?X] ! k"
        using k by (simp add: ta nth_list_update)
    qed
    have tail2: "map (\<lambda>r. tileArray ?s2 ! r ! j) [Suc i..<gridSize]
        = ys @ ?X # survivors s0 j (Suc i)"
      unfolding tail suf fill by (simp add: list_update_append)
    have whole: "map (\<lambda>r. tileArray ?s2 ! r ! j) [i..<gridSize]
        = (nextTile s' # ys) @ survivors s0 j i"
      unfolding up survivors_Cons [OF il] using occ tail2 by (simp add: ta)
    have fill2: "\<forall>t\<in>set (nextTile s' # ys). isEmpty (tileHeap ?s2 t)"
      using fe fill_in unfolding th fill by auto
    show ?thesis
      unfolding fallInv_def using g2 nt nt2 f2 old2 fresh2 same2 whole fill2
      by (intro conjI exI [of _ "nextTile s' # ys"]) simp_all
  qed
qed

section \<open>Compaction: all columns\<close>

lemma fall_inner:
  assumes "gridOk s0" "tileRefsOk s0" "j < gridSize"
  shows "i \<le> gridSize - 1 \<Longrightarrow> fallInv s0 j i (fold (fallTile j) (rev [i..<gridSize - 1]) s0)"
proof (induction i rule: inc_induct)
  case base
  show ?case using fallInv_base [OF assms(1,2)] by simp
next
  case (step i)
  have "Suc i < gridSize" using step.hyps by simp
  then show ?case
    using fallInv_step [OF assms _ step.IH] step.hyps
    by (simp add: upt_conv_Cons)
qed

lemma survivors_cong:
  assumes "\<And>r. r < gridSize \<Longrightarrow> tileArray s' ! r ! j = tileArray s ! r ! j"
    and "\<And>r. r < gridSize \<Longrightarrow> isEmpty (tileHeap s' (tileArray s ! r ! j)) = isEmpty (tileHeap s (tileArray s ! r ! j))"
  shows "survivors s' j i = survivors s j i"
proof -
  have e: "map (\<lambda>r. tileArray s' ! r ! j) [i..<gridSize] = map (\<lambda>r. tileArray s ! r ! j) [i..<gridSize]"
    using assms(1) by simp
  have "filter (\<lambda>t. \<not> isEmpty (tileHeap s' t)) (map (\<lambda>r. tileArray s ! r ! j) [i..<gridSize])
      = filter (\<lambda>t. \<not> isEmpty (tileHeap s t)) (map (\<lambda>r. tileArray s ! r ! j) [i..<gridSize])"
    using assms(2) by (intro filter_cong) auto
  then show ?thesis unfolding survivors_def e .
qed

lemma compactInv_step:
  assumes g: "gridOk s" and f: "tileRefsOk s" and m: "m < gridSize"
    and inv: "compactInv s m s'"
  shows "compactInv s (Suc m) (fold (fallTile m) (rev [0..<gridSize - 1]) s')"
proof -
  let ?s2 = "fold (fallTile m) (rev [0..<gridSize - 1]) s'"
  from inv have g': "gridOk s'" and nt: "nextTile s \<le> nextTile s'" and f': "tileRefsOk s'"
    and old: "\<And>t. t < nextTile s \<Longrightarrow> tileHeap s' t = tileHeap s t"
    and fresh: "\<And>t. nextTile s \<le> t \<Longrightarrow> t < nextTile s' \<Longrightarrow> isEmpty (tileHeap s' t)"
    and same: "\<And>r c. m \<le> c \<Longrightarrow> tileArray s' ! r ! c = tileArray s ! r ! c"
    and finished: "\<And>c. c < m \<Longrightarrow> \<exists>fill. column s' c = fill @ survivors s c 0
                 \<and> (\<forall>t\<in>set fill. isEmpty (tileHeap s' t))"
    unfolding compactInv_def by blast+
  have fi: "fallInv s' m 0 ?s2" using fall_inner [OF g' f' m, of 0] by simp
  then have g2: "gridOk ?s2" and nt2: "nextTile s' \<le> nextTile ?s2" and f2: "tileRefsOk ?s2"
    and old2: "\<And>t. t < nextTile s' \<Longrightarrow> tileHeap ?s2 t = tileHeap s' t"
    and fresh2: "\<And>t. nextTile s' \<le> t \<Longrightarrow> t < nextTile ?s2 \<Longrightarrow> isEmpty (tileHeap ?s2 t)"
    and same2: "\<And>r c. c \<noteq> m \<Longrightarrow> tileArray ?s2 ! r ! c = tileArray s' ! r ! c"
    unfolding fallInv_def by blast+
  from fi obtain fill where
    col: "map (\<lambda>r. tileArray ?s2 ! r ! m) [0..<gridSize] = fill @ survivors s' m 0"
    and fe: "\<forall>t\<in>set fill. isEmpty (tileHeap ?s2 t)"
    unfolding fallInv_def by blast
  have sv: "survivors s' m 0 = survivors s m 0"
  proof (rule survivors_cong)
    fix r assume r: "r < gridSize"
    show "tileArray s' ! r ! m = tileArray s ! r ! m" using same [of m r] by simp
    show "isEmpty (tileHeap s' (tileArray s ! r ! m)) = isEmpty (tileHeap s (tileArray s ! r ! m))"
      using old [OF tileRefsOk_nth [OF f r m]] by simp
  qed
  have a4: "\<forall>t<nextTile s. tileHeap ?s2 t = tileHeap s t"
    using old old2 nt by auto
  have a5: "\<forall>t. nextTile s \<le> t \<and> t < nextTile ?s2 \<longrightarrow> isEmpty (tileHeap ?s2 t)"
  proof (intro allI impI)
    fix t assume t: "nextTile s \<le> t \<and> t < nextTile ?s2"
    show "isEmpty (tileHeap ?s2 t)"
    proof (cases "t < nextTile s'")
      case True
      then show ?thesis using old2 [of t] fresh [of t] t by simp
    next
      case False
      then show ?thesis using fresh2 [of t] t by simp
    qed
  qed
  have a6: "\<forall>r c. Suc m \<le> c \<longrightarrow> tileArray ?s2 ! r ! c = tileArray s ! r ! c"
    using same same2 by auto
  have a7: "\<forall>c<Suc m. \<exists>fill. column ?s2 c = fill @ survivors s c 0
                 \<and> (\<forall>t\<in>set fill. isEmpty (tileHeap ?s2 t))"
  proof (intro allI impI)
    fix c assume c: "c < Suc m"
    show "\<exists>fill. column ?s2 c = fill @ survivors s c 0 \<and> (\<forall>t\<in>set fill. isEmpty (tileHeap ?s2 t))"
    proof (cases "c = m")
      case True
      have "column ?s2 c = fill @ survivors s c 0"
        unfolding column_def True using col sv by simp
      then show ?thesis using fe by blast
    next
      case False
      then have cm: "c < m" using c by simp
      from finished [OF cm] obtain fl where fl: "column s' c = fl @ survivors s c 0"
        "\<forall>t\<in>set fl. isEmpty (tileHeap s' t)" by blast
      have cc: "column ?s2 c = column s' c" unfolding column_def using same2 [OF False] by simp
      have cg: "c < gridSize" using cm m by simp
      have "\<forall>t\<in>set fl. t < nextTile s'"
      proof
        fix t assume "t \<in> set fl"
        then have "t \<in> set (column s' c)" unfolding fl(1) by simp
        then show "t < nextTile s'" unfolding column_def using tileRefsOk_nth [OF f' _ cg] by auto
      qed
      then have "\<forall>t\<in>set fl. isEmpty (tileHeap ?s2 t)" using fl(2) old2 by simp
      then show ?thesis unfolding cc using fl(1) by blast
    qed
  qed
  show ?thesis
    unfolding compactInv_def using g2 nt nt2 f2 a4 a5 a6 a7 by simp
qed

lemma compactInv_all:
  assumes g: "gridOk s" and f: "tileRefsOk s"
  shows "m \<le> gridSize \<Longrightarrow>
    compactInv s m (fold (\<lambda>j. fold (fallTile j) (rev [0..<gridSize - 1])) [0..<m] s)"
proof (induction m)
  case 0
  show ?case using g f by (auto simp: compactInv_def)
next
  case (Suc m)
  then have "m < gridSize" by simp
  then show ?case using compactInv_step [OF g f _ Suc.IH] Suc.prems by simp
qed

lemma compaction_column:
  assumes g: "gridOk s" and f: "tileRefsOk s" and j: "j < gridSize"
  shows "\<exists>fill. column (onAfterTilesDestroyed s) j = fill @ survivors s j 0
      \<and> length fill = holesInCol s j
      \<and> (\<forall>t\<in>set fill. isEmpty (tileHeap (onAfterTilesDestroyed s) t))"
    and "\<forall>t<nextTile s. tileHeap (onAfterTilesDestroyed s) t = tileHeap s t"
    and "gridOk (onAfterTilesDestroyed s)" and "tileRefsOk (onAfterTilesDestroyed s)"
proof -
  let ?s' = "onAfterTilesDestroyed s"
  have inv: "compactInv s gridSize ?s'"
    unfolding onAfterTilesDestroyed_def using compactInv_all [OF g f, of gridSize] by simp
  then obtain fill where fill: "column ?s' j = fill @ survivors s j 0"
      "\<forall>t\<in>set fill. isEmpty (tileHeap ?s' t)"
    unfolding compactInv_def using j by blast
  have "length (column ?s' j) = gridSize" by (simp add: column_def)
  moreover have "length (survivors s j 0) + holesInCol s j = gridSize"
  proof -
    let ?P = "\<lambda>i. emptyAt s i j"
    have "length (survivors s j 0) = length (filter (\<lambda>i. \<not> ?P i) [0..<gridSize])"
      unfolding survivors_def emptyAt_def by (simp add: filter_map comp_def)
    moreover have "length (filter ?P [0..<gridSize]) + length (filter (\<lambda>i. \<not> ?P i) [0..<gridSize])
        = length [0..<gridSize]"
      by (rule sum_length_filter_compl)
    ultimately show ?thesis unfolding holesInCol_filter by simp
  qed
  ultimately have "length fill = holesInCol s j" unfolding fill(1) by simp
  then show "\<exists>fill. column ?s' j = fill @ survivors s j 0
      \<and> length fill = holesInCol s j
      \<and> (\<forall>t\<in>set fill. isEmpty (tileHeap ?s' t))"
    using fill by blast
  show "\<forall>t<nextTile s. tileHeap ?s' t = tileHeap s t"
    "gridOk ?s'" "tileRefsOk ?s'"
    using inv unfolding compactInv_def by blast+
qed

section \<open>Compaction correctness\<close>

lemma filter_nth_pos:
  assumes "i < length xs" "P (xs ! i)"
  shows "filter P xs ! length (filter P (take i xs)) = xs ! i"
proof -
  have "xs = take i xs @ xs ! i # drop (Suc i) xs" using assms(1) by (rule id_take_nth_drop)
  then have "filter P xs = filter P (take i xs) @ xs ! i # filter P (drop (Suc i) xs)"
    using assms(2) by (metis filter.simps(2) filter_append)
  then show ?thesis by (simp add: nth_append)
qed

lemma holes_split:
  assumes "i < gridSize" "\<not> emptyAt s i j"
  shows "holesInCol s j = length (filter (\<lambda>r. emptyAt s r j) [0..<i]) + holesBelow s i j"
proof -
  have "[0..<gridSize] = [0..<i] @ i # [Suc i..<gridSize]"
    using assms(1) by (metis le0 upt_add_eq_append upt_conv_Cons le_add_diff_inverse less_imp_le_nat add_0)
  then show ?thesis using assms(2) by (simp add: holesInCol_filter holesBelow_filter)
qed

lemma occupied_above:
  assumes "i \<le> gridSize"
  shows "length (filter (\<lambda>t. \<not> isEmpty (tileHeap s t)) (take i (column s j)))
     + length (filter (\<lambda>r. emptyAt s r j) [0..<i]) = i"
proof -
  have "take i (column s j) = map (\<lambda>r. tileArray s ! r ! j) [0..<i]"
    unfolding column_def using assms by (simp add: take_map min_def)
  then have "length (filter (\<lambda>t. \<not> isEmpty (tileHeap s t)) (take i (column s j)))
      = length (filter (\<lambda>r. \<not> emptyAt s r j) [0..<i])"
    by (simp add: filter_map comp_def emptyAt_def)
  moreover have "length (filter (\<lambda>r. emptyAt s r j) [0..<i])
      + length (filter (\<lambda>r. \<not> emptyAt s r j) [0..<i]) = length [0..<i]"
    by (rule sum_length_filter_compl)
  ultimately show ?thesis by simp
qed

lemma destination_index:
  assumes "i < gridSize" "\<not> emptyAt s i j"
  shows "i + holesBelow s i j
     = holesInCol s j + length (filter (\<lambda>t. \<not> isEmpty (tileHeap s t)) (take i (column s j)))"
  using holes_split [OF assms] occupied_above [of i s j] assms(1) by simp

lemma destinations_increase:
  assumes "i < k" "k < gridSize" "\<not> emptyAt s k j"
  shows "i + holesBelow s i j < k + holesBelow s k j"
proof -
  have "[Suc i..<gridSize] = [Suc i..<k] @ k # [Suc k..<gridSize]"
    using assms(1,2)
    by (metis Suc_leI less_imp_le_nat upt_add_eq_append upt_conv_Cons le_add_diff_inverse)
  then have "holesBelow s i j = length (filter (\<lambda>r. emptyAt s r j) [Suc i..<k]) + holesBelow s k j"
    using assms(3) by (simp add: holesBelow_filter)
  moreover have "length (filter (\<lambda>r. emptyAt s r j) [Suc i..<k]) \<le> length [Suc i..<k]"
    by (rule length_filter_le)
  ultimately show ?thesis using assms(1) by simp
qed

lemma compaction_cells:
  assumes g: "gridOk s" and f: "tileRefsOk s" and j: "j < gridSize"
  shows "drop (holesInCol s j) (column (onAfterTilesDestroyed s) j) = survivors s j 0"
    and "\<And>i. i < gridSize \<Longrightarrow> emptyAt (onAfterTilesDestroyed s) i j \<longleftrightarrow> i < holesInCol s j"
    and "\<And>i. i < gridSize \<Longrightarrow> \<not> emptyAt s i j \<Longrightarrow>
           tileArray (onAfterTilesDestroyed s) ! (i + holesBelow s i j) ! j = tileArray s ! i ! j"
proof -
  let ?s' = "onAfterTilesDestroyed s"
  from compaction_column(1) [OF g f j] obtain fill where
    col: "column ?s' j = fill @ survivors s j 0" and len: "length fill = holesInCol s j"
    and fe: "\<forall>t\<in>set fill. isEmpty (tileHeap ?s' t)" by blast
  note old = compaction_column(2) [OF g f j]
  show "drop (holesInCol s j) (column ?s' j) = survivors s j 0"
    unfolding col using len by simp
  have cell: "\<And>i. i < gridSize \<Longrightarrow> tileArray ?s' ! i ! j = (fill @ survivors s j 0) ! i"
    unfolding col [symmetric] column_def by simp
  have total: "length fill + length (survivors s j 0) = gridSize"
    using arg_cong [OF col, of length] by (simp add: column_def)
  {
    fix i assume i: "i < gridSize"
    show "emptyAt ?s' i j \<longleftrightarrow> i < holesInCol s j"
    proof (cases "i < length fill")
      case True
      then have "tileArray ?s' ! i ! j \<in> set fill" unfolding cell [OF i] by (simp add: nth_append)
      then show ?thesis using fe True len by (simp add: emptyAt_def)
    next
      case False
      then have "tileArray ?s' ! i ! j = survivors s j 0 ! (i - length fill)"
        unfolding cell [OF i] by (simp add: nth_append)
      moreover have "i - length fill < length (survivors s j 0)" using False i total by arith
      ultimately have "tileArray ?s' ! i ! j \<in> set (survivors s j 0)" by (metis nth_mem)
      then have "tileArray ?s' ! i ! j < nextTile s \<and> \<not> isEmpty (tileHeap s (tileArray ?s' ! i ! j))"
        by (rule survivors_old [OF f j])
      then show ?thesis using old False len by (simp add: emptyAt_def)
    qed
  }
  {
    fix i assume i: "i < gridSize" and occ: "\<not> emptyAt s i j"
    let ?pos = "length (filter (\<lambda>t. \<not> isEmpty (tileHeap s t)) (take i (column s j)))"
    have dest: "i + holesBelow s i j = length fill + ?pos"
      using destination_index [OF i occ] len by simp
    have ci: "column s j ! i = tileArray s ! i ! j" using i by (simp add: column_def)
    have "survivors s j 0 ! ?pos = column s j ! i"
      unfolding survivors_def column_def [symmetric]
      using i occ ci by (intro filter_nth_pos) (simp_all add: column_def emptyAt_def)
    moreover have "i + holesBelow s i j < gridSize"
      using holesBelow_le [of s i j] i by arith
    ultimately show "tileArray ?s' ! (i + holesBelow s i j) ! j = tileArray s ! i ! j"
      using cell [of "i + holesBelow s i j"] ci unfolding dest by (simp add: nth_append)
  }
qed

text \<open>
  C3, as the code has it. \<open>onAfterTilesDestroyed\<close> compacts each column on its own: an
  occupied cell's tile ends exactly \<open>holesBelow\<close> rows lower (counted in the grid as it
  was after the removal), with its payload untouched; afterwards the survivors of the
  column fill its lowest rows in their original order and exactly the top \<open>holesInCol\<close>
  cells are unoccupied; two different tokens never get the same destination. Each single
  move marks the cell it leaves unoccupied; that cell can later receive a token falling
  from above, so it need not be unoccupied in the end.
\<close>

theorem compaction_correct:
  assumes "gridOk s" and "tileRefsOk s" and "j < gridSize"
  shows "drop (holesInCol s j) (column (onAfterTilesDestroyed s) j)
           = filter (\<lambda>t. \<not> isEmpty (tileHeap s t)) (column s j)
       \<and> (\<forall>i<gridSize. emptyAt (onAfterTilesDestroyed s) i j \<longleftrightarrow> i < holesInCol s j)
       \<and> (\<forall>i<gridSize. \<not> emptyAt s i j \<longrightarrow>
             tileArray (onAfterTilesDestroyed s) ! (i + holesBelow s i j) ! j = tileArray s ! i ! j
             \<and> tileHeap (onAfterTilesDestroyed s) (tileArray s ! i ! j)
                 = tileHeap s (tileArray s ! i ! j))
       \<and> (\<forall>i<gridSize. \<forall>k<gridSize. i \<noteq> k \<and> \<not> emptyAt s i j \<and> \<not> emptyAt s k j \<longrightarrow>
             i + holesBelow s i j \<noteq> k + holesBelow s k j)
       \<and> (\<forall>i<gridSize. \<not> emptyAt s i j \<and> 0 < holesBelow s i j \<longrightarrow>
             emptyAt (fallTile j i s) i j
             \<and> tileArray (fallTile j i s) ! (i + holesBelow s i j) ! j = tileArray s ! i ! j)"
proof (intro conjI allI impI)
  show "drop (holesInCol s j) (column (onAfterTilesDestroyed s) j)
           = filter (\<lambda>t. \<not> isEmpty (tileHeap s t)) (column s j)"
    using compaction_cells(1) [OF assms] by (simp add: survivors_def column_def)
next
  fix i assume "i < gridSize"
  then show "emptyAt (onAfterTilesDestroyed s) i j \<longleftrightarrow> i < holesInCol s j"
    by (rule compaction_cells(2) [OF assms])
next
  fix i assume i: "i < gridSize" and occ: "\<not> emptyAt s i j"
  show "tileArray (onAfterTilesDestroyed s) ! (i + holesBelow s i j) ! j = tileArray s ! i ! j"
    using i occ by (rule compaction_cells(3) [OF assms])
  show "tileHeap (onAfterTilesDestroyed s) (tileArray s ! i ! j) = tileHeap s (tileArray s ! i ! j)"
    using compaction_column(2) [OF assms] tileRefsOk_nth [OF assms(2) i assms(3)] by simp
next
  fix i k
  assume i: "i < gridSize" and k: "k < gridSize"
    and h: "i \<noteq> k \<and> \<not> emptyAt s i j \<and> \<not> emptyAt s k j"
  show "i + holesBelow s i j \<noteq> k + holesBelow s k j"
  proof (cases "i < k")
    case True
    then show ?thesis using destinations_increase [of i k s j] k h by simp
  next
    case False
    then have "k < i" using h by simp
    then show ?thesis using destinations_increase [of k i s j] i h by simp
  qed
next
  fix i assume i: "i < gridSize" and h: "\<not> emptyAt s i j \<and> 0 < holesBelow s i j"
  note mv = fallTile_move [OF assms(1) i assms(3)]
  show "emptyAt (fallTile j i s) i j"
    using h by (simp add: emptyAt_def mv)
  show "tileArray (fallTile j i s) ! (i + holesBelow s i j) ! j = tileArray s ! i ! j"
    using h by (simp add: mv)
qed

theorem compaction_correct_witness:
  "gridOk holedScene \<and> tileRefsOk holedScene
   \<and> column holedScene 0 = [0, 7, 14, 21, 28, 35, 42]
   \<and> map (\<lambda>i. emptyAt holedScene i 0) [0..<gridSize]
        = [False, True, False, True, False, False, False]
   \<and> holesInCol holedScene 0 = 2
   \<and> drop 2 (column (onAfterTilesDestroyed holedScene) 0) = [0, 14, 28, 35, 42]
   \<and> emptyAt (onAfterTilesDestroyed holedScene) 0 0
   \<and> emptyAt (onAfterTilesDestroyed holedScene) 1 0
   \<and> \<not> emptyAt (onAfterTilesDestroyed holedScene) 2 0
   \<and> holesBelow holedScene 0 0 = 2
   \<and> tileArray (onAfterTilesDestroyed holedScene) ! 2 ! 0 = 0
   \<and> tileHeap (onAfterTilesDestroyed holedScene) 0 = tileHeap holedScene 0
   \<and> emptyAt (fallTile 0 2 holedScene) 2 0"
proof -
  have g: "gridOk holedScene" by code_simp
  have f: "tileRefsOk holedScene" by code_simp
  have j: "(0::nat) < gridSize" "(1::nat) < gridSize" "(2::nat) < gridSize"
    by (simp_all add: gridSize_def)
  have c: "column holedScene 0 = [0, 7, 14, 21, 28, 35, 42]" by code_simp
  have e: "map (\<lambda>i. emptyAt holedScene i 0) [0..<gridSize]
        = [False, True, False, True, False, False, False]" by code_simp
  have e0: "\<not> emptyAt holedScene 0 0" "\<not> emptyAt holedScene 2 0" by code_simp+
  have h: "holesInCol holedScene 0 = 2" "holesBelow holedScene 0 0 = 2"
      "0 < holesBelow holedScene 2 0" by code_simp+
  have t0: "tileArray holedScene ! 0 ! 0 = 0" by code_simp
  have sv: "filter (\<lambda>t. \<not> isEmpty (tileHeap holedScene t)) (column holedScene 0) = [0, 14, 28, 35, 42]"
    by code_simp
  note inst = compaction_correct [OF g f j(1)]
  have d: "drop 2 (column (onAfterTilesDestroyed holedScene) 0) = [0, 14, 28, 35, 42]"
    using inst h(1) sv by simp
  have e': "emptyAt (onAfterTilesDestroyed holedScene) 0 0"
      "emptyAt (onAfterTilesDestroyed holedScene) 1 0"
      "\<not> emptyAt (onAfterTilesDestroyed holedScene) 2 0"
    using inst j unfolding h(1) by simp_all
  have m: "tileArray (onAfterTilesDestroyed holedScene) ! 2 ! 0 = 0
      \<and> tileHeap (onAfterTilesDestroyed holedScene) 0 = tileHeap holedScene 0"
    using inst e0(1) h(2) t0 j(1) by (metis add_0)
  have st: "emptyAt (fallTile 0 2 holedScene) 2 0"
    using inst e0(2) h(3) j(3) by blast
  show ?thesis using g f c e h(1,2) d e' m st by simp
qed

text \<open>
  The claim as it is written fails on the last point of its second half. In column 0 of
  this scene only row 2 is a hole. The token of row 1 is moved to row 2, and its original
  cell \<open>(1, 0)\<close> is occupied afterwards, by the token that fell from row 0.
\<close>

theorem compaction_counterexample:
  "\<not> emptyAt gapScene 1 0 \<and> holesBelow gapScene 1 0 = 1
   \<and> tileArray (onAfterTilesDestroyed gapScene) ! 2 ! 0 = tileArray gapScene ! 1 ! 0
   \<and> \<not> emptyAt (onAfterTilesDestroyed gapScene) 1 0
   \<and> tileArray (onAfterTilesDestroyed gapScene) ! 1 ! 0 = tileArray gapScene ! 0 ! 0"
proof -
  have g: "gridOk gapScene" by code_simp
  have f: "tileRefsOk gapScene" by code_simp
  have j: "(0::nat) < gridSize" "(1::nat) < gridSize" by (simp_all add: gridSize_def)
  have e: "\<not> emptyAt gapScene 0 0" "\<not> emptyAt gapScene 1 0" by code_simp+
  have h: "holesBelow gapScene 0 0 = 1" "holesBelow gapScene 1 0 = 1" "holesInCol gapScene 0 = 1"
    by code_simp+
  have a: "tileArray (onAfterTilesDestroyed gapScene) ! 2 ! 0 = tileArray gapScene ! 1 ! 0"
    using compaction_cells(3) [OF g f j(1) j(2) e(2)] unfolding h by (simp only: one_add_one)
  have b: "tileArray (onAfterTilesDestroyed gapScene) ! 1 ! 0 = tileArray gapScene ! 0 ! 0"
    using compaction_cells(3) [OF g f j(1) j(1) e(1)] unfolding h by (simp only: add_0)
  have c: "\<not> emptyAt (onAfterTilesDestroyed gapScene) 1 0"
    using compaction_cells(2) [OF g f j(1) j(2)] unfolding h by simp
  show ?thesis using e h a b c by simp
qed

section \<open>Refill: one column\<close>

lemma tilesDistinct_nth:
  "tilesDistinct s \<Longrightarrow> i < gridSize \<Longrightarrow> j < gridSize \<Longrightarrow> i' < gridSize \<Longrightarrow> j' < gridSize
   \<Longrightarrow> tileArray s ! i ! j = tileArray s ! i' ! j' \<Longrightarrow> i = i' \<and> j = j'"
  unfolding tilesDistinct_def list_all_iff by (metis atLeastLessThan_iff le0 set_upt)

lemma Between_range: "0 \<le> Between s 0 (colors - 1) \<and> Between s 0 (colors - 1) < colors"
proof -
  have "rng s (rngPos s) mod 6 < 6" by simp
  then have "int (rng s (rngPos s) mod 6) < 6" by linarith
  then show ?thesis unfolding Between_def colors_def by simp
qed

lemma replenishTile_pop:
  assumes "poolArray s \<noteq> []"
  shows "tileArray (replenishTile c j e i s) = tileArray s"
    and "poolArray (replenishTile c j e i s) = butlast (poolArray s)"
    and "tileHeap (replenishTile c j e i s) =
           (tileHeap s)(tileArray s ! i ! j :=
              \<lparr>color = Between s 0 (colors - 1), tileSprite = last (poolArray s), isEmpty = False\<rparr>)"
  using assms
  by (simp_all add: replenishTile_def Let_def nextRandom_def setTile_def setSprite_def addTween_def
      Between_def fun_eq_iff)

lemma refilled_upd:
  assumes "set (poolArray s1) \<subseteq> set (poolArray s)" "poolArray s' \<noteq> []" "set (poolArray s') \<subseteq> set (poolArray s1)"
  shows "refilled s \<lparr>color = Between s' 0 (colors - 1), tileSprite = last (poolArray s'), isEmpty = False\<rparr>"
proof -
  have "last (poolArray s') \<in> set (poolArray s)" using assms last_in_set by blast
  then show ?thesis using Between_range [of s'] by (simp add: refilled_def)
qed

lemma refill_inner:
  assumes ta: "tileArray s1 = tileArray s" and sub: "set (poolArray s1) \<subseteq> set (poolArray s)"
    and e: "e \<le> length (poolArray s1)"
  shows "k \<le> e \<Longrightarrow> refillInv s s1 j k (fold (replenishTile c j e) [0..<k] s1)"
proof (induction k)
  case 0
  show ?case using ta by (simp add: refillInv_def)
next
  case (Suc k)
  let ?s' = "fold (replenishTile c j e) [0..<k] s1"
  let ?s2 = "replenishTile c j e k ?s'"
  have inv: "refillInv s s1 j k ?s'" using Suc by simp
  then have ta': "tileArray ?s' = tileArray s"
    and len: "length (poolArray ?s') + k = length (poolArray s1)"
    and sub': "set (poolArray ?s') \<subseteq> set (poolArray s1)"
    and same: "\<And>t. t \<notin> {tileArray s ! i ! j | i. i < k} \<Longrightarrow> tileHeap ?s' t = tileHeap s1 t"
    and good: "\<And>i. i < k \<Longrightarrow> refilled s (tileHeap ?s' (tileArray s ! i ! j))"
    unfolding refillInv_def by blast+
  have ne: "poolArray ?s' \<noteq> []" using len Suc.prems e by auto
  note pop = replenishTile_pop [OF ne, of c j e k]
  have step: "fold (replenishTile c j e) [0..<Suc k] s1 = ?s2" by simp
  have a1: "tileArray ?s2 = tileArray s" using pop(1) ta' by simp
  have a2: "length (poolArray ?s2) + Suc k = length (poolArray s1)"
    using pop(2) len ne by (cases "poolArray ?s'") auto
  have a3: "set (poolArray ?s2) \<subseteq> set (poolArray s1)"
    using pop(2) sub' by (metis in_set_butlastD subset_iff)
  have a4: "\<forall>t. t \<notin> {tileArray s ! i ! j | i. i < Suc k} \<longrightarrow> tileHeap ?s2 t = tileHeap s1 t"
  proof (intro allI impI)
    fix t assume t: "t \<notin> {tileArray s ! i ! j | i. i < Suc k}"
    then have "t \<noteq> tileArray s ! k ! j" "t \<notin> {tileArray s ! i ! j | i. i < k}" by auto
    then show "tileHeap ?s2 t = tileHeap s1 t" using same unfolding pop(3) ta' by simp
  qed
  have a5: "\<forall>i<Suc k. refilled s (tileHeap ?s2 (tileArray s ! i ! j))"
  proof (intro allI impI)
    fix i assume i: "i < Suc k"
    show "refilled s (tileHeap ?s2 (tileArray s ! i ! j))"
    proof (cases "tileArray s ! i ! j = tileArray s ! k ! j")
      case True
      then show ?thesis unfolding pop(3) ta' using refilled_upd [OF sub ne sub'] by simp
    next
      case False
      then have "i < k" using i by (cases "i = k") auto
      then show ?thesis unfolding pop(3) ta' using good False by simp
    qed
  qed
  show ?case unfolding step refillInv_def using a1 a2 a3 a4 a5 by blast
qed

section \<open>Refill\<close>

lemma holesInCol_le: "holesInCol s j \<le> gridSize"
proof -
  have "length (filter (\<lambda>i. emptyAt s i j) [0..<gridSize]) \<le> length [0..<gridSize]"
    by (rule length_filter_le)
  then show ?thesis by (simp add: holesInCol_filter)
qed

lemma topTiles_Suc:
  "topTiles s (Suc m) = topTiles s m \<union> {tileArray s ! i ! m | i. i < holesInCol s m}"
  unfolding topTiles_def by (auto simp: less_Suc_eq)

lemma column_not_top:
  assumes "tilesDistinct s" "m < gridSize" "i < gridSize"
  shows "tileArray s ! i ! m \<notin> topTiles s m"
proof
  assume "tileArray s ! i ! m \<in> topTiles s m"
  then obtain i' j' where h: "tileArray s ! i ! m = tileArray s ! i' ! j'" "j' < m" "i' < holesInCol s j'"
    unfolding topTiles_def by blast
  have "i' < gridSize" "j' < gridSize" using h(2,3) assms(2) holesInCol_le [of s j'] by simp_all
  then show False using tilesDistinct_nth [OF assms(1) assms(3) assms(2) _ _ h(1)] h(2) by simp
qed

lemma holesInCol_cong:
  assumes "tileArray s' = tileArray s"
    and "\<And>i. i < gridSize \<Longrightarrow> tileHeap s' (tileArray s ! i ! j) = tileHeap s (tileArray s ! i ! j)"
  shows "holesInCol s' j = holesInCol s j"
proof -
  have "filter (\<lambda>i. emptyAt s' i j) [0..<gridSize] = filter (\<lambda>i. emptyAt s i j) [0..<gridSize]"
    using assms by (intro filter_cong) (auto simp: emptyAt_def)
  then show ?thesis by (simp add: holesInCol_filter)
qed

lemma refillAll_step:
  assumes d: "tilesDistinct s" and enough: "totalHoles s \<le> length (poolArray s)"
    and m: "m < gridSize" and inv: "refillAllInv s m s'"
  shows "refillAllInv s (Suc m) (replenishCol c m s')"
proof -
  from inv have ta: "tileArray s' = tileArray s"
    and len: "length (poolArray s') + sum_list (map (holesInCol s) [0..<m]) = length (poolArray s)"
    and sub: "set (poolArray s') \<subseteq> set (poolArray s)"
    and same: "\<And>t. t \<notin> topTiles s m \<Longrightarrow> tileHeap s' t = tileHeap s t"
    and good: "\<And>t. t \<in> topTiles s m \<Longrightarrow> refilled s (tileHeap s' t)"
    unfolding refillAllInv_def by blast+
  let ?e = "holesInCol s m"
  have e: "holesInCol s' m = ?e"
    using column_not_top [OF d m] same by (intro holesInCol_cong [OF ta]) simp
  have "[0..<gridSize] = [0..<m] @ m # [Suc m..<gridSize]"
    using m by (metis le0 upt_add_eq_append upt_conv_Cons le_add_diff_inverse less_imp_le_nat add_0)
  then have "sum_list (map (holesInCol s) [0..<m]) + ?e \<le> totalHoles s"
    unfolding totalHoles_def by simp
  then have room: "?e \<le> length (poolArray s')" using enough len by simp
  have sumS: "sum_list (map (holesInCol s) [0..<Suc m]) = sum_list (map (holesInCol s) [0..<m]) + ?e"
    by simp
  show ?thesis
  proof (cases "?e = 0")
    case True
    then have "replenishCol c m s' = s'" by (simp add: replenishCol_def e)
    moreover have "topTiles s (Suc m) = topTiles s m" unfolding topTiles_Suc using True by simp
    ultimately show ?thesis using inv True unfolding refillAllInv_def sumS by simp
  next
    case False
    let ?s2 = "fold (replenishTile c m ?e) [0..<?e] s'"
    have res: "replenishCol c m s' = ?s2" using False by (simp add: replenishCol_def e Let_def)
    have "refillInv s s' m ?e ?s2" using refill_inner [OF ta sub room, of ?e] by simp
    then have ta2: "tileArray ?s2 = tileArray s"
      and len2: "length (poolArray ?s2) + ?e = length (poolArray s')"
      and sub2: "set (poolArray ?s2) \<subseteq> set (poolArray s')"
      and same2: "\<And>t. t \<notin> {tileArray s ! i ! m | i. i < ?e} \<Longrightarrow> tileHeap ?s2 t = tileHeap s' t"
      and good2: "\<And>i. i < ?e \<Longrightarrow> refilled s (tileHeap ?s2 (tileArray s ! i ! m))"
      unfolding refillInv_def by blast+
    have a2: "length (poolArray ?s2) + sum_list (map (holesInCol s) [0..<Suc m]) = length (poolArray s)"
      using len len2 unfolding sumS by simp
    have a3: "set (poolArray ?s2) \<subseteq> set (poolArray s)" using sub sub2 by blast
    have a4: "\<forall>t. t \<notin> topTiles s (Suc m) \<longrightarrow> tileHeap ?s2 t = tileHeap s t"
      unfolding topTiles_Suc using same same2 by simp
    have a5: "\<forall>t\<in>topTiles s (Suc m). refilled s (tileHeap ?s2 t)"
    proof
      fix t assume t: "t \<in> topTiles s (Suc m)"
      show "refilled s (tileHeap ?s2 t)"
      proof (cases "t \<in> {tileArray s ! i ! m | i. i < ?e}")
        case True
        then show ?thesis using good2 by blast
      next
        case False
        then have "t \<in> topTiles s m" using t unfolding topTiles_Suc by blast
        then show ?thesis using good same2 [OF False] by simp
      qed
    qed
    show ?thesis unfolding res refillAllInv_def using ta2 a2 a3 a4 a5 by blast
  qed
qed

lemma refillAll:
  assumes d: "tilesDistinct s" and enough: "totalHoles s \<le> length (poolArray s)"
    and s1: "tileArray s1 = tileArray s" "poolArray s1 = poolArray s" "tileHeap s1 = tileHeap s"
  shows "m \<le> gridSize \<Longrightarrow> refillAllInv s m (fold (replenishCol c) [0..<m] s1)"
proof (induction m)
  case 0
  show ?case using s1 by (simp add: refillAllInv_def topTiles_def)
next
  case (Suc m)
  then have "m < gridSize" by simp
  then show ?case using refillAll_step [OF d enough _ Suc.IH] Suc.prems by simp
qed

lemma totalHoles_fold:
  "fold (\<lambda>j total. total + holesInCol s j) [0..<gridSize] 0 = totalHoles s"
  by (simp add: sum_fold totalHoles_def)

lemma replenishField_cells:
  assumes g: "gridOk s" and d: "tilesDistinct s" and enough: "totalHoles s \<le> length (poolArray s)"
    and i: "i < gridSize" and j: "j < gridSize"
  shows "tileArray (replenishField s) = tileArray s"
    and "i < holesInCol s j \<Longrightarrow> refilled s (tileHeap (replenishField s) (tileArray s ! i ! j))"
    and "holesInCol s j \<le> i \<Longrightarrow>
           tileHeap (replenishField s) (tileArray s ! i ! j) = tileHeap s (tileArray s ! i ! j)"
proof -
  let ?s' = "replenishField s"
  have main: "tileArray ?s' = tileArray s
      \<and> (\<forall>t. t \<notin> topTiles s gridSize \<longrightarrow> tileHeap ?s' t = tileHeap s t)
      \<and> (\<forall>t\<in>topTiles s gridSize. refilled s (tileHeap ?s' t))"
  proof (cases "totalHoles s = 0")
    case True
    then have "\<And>j. j < gridSize \<Longrightarrow> holesInCol s j = 0"
      unfolding totalHoles_def by (simp add: sum_list_eq_0_iff)
    then have "topTiles s gridSize = {}" unfolding topTiles_def by auto
    moreover have "?s' = s\<lparr>canPick := True, selectedTile := None\<rparr>"
      using True by (simp add: replenishField_def totalHoles_fold)
    ultimately show ?thesis by simp
  next
    case False
    let ?s1 = "s\<lparr>counters := (counters s)(nextCounter s := 0), nextCounter := Suc (nextCounter s)\<rparr>"
    have res: "?s' = fold (replenishCol (nextCounter s)) [0..<gridSize] ?s1"
      using False by (simp add: replenishField_def totalHoles_fold Let_def)
    have "refillAllInv s gridSize (fold (replenishCol (nextCounter s)) [0..<gridSize] ?s1)"
      by (rule refillAll [OF d enough]) simp_all
    then show ?thesis unfolding res refillAllInv_def by blast
  qed
  show "tileArray ?s' = tileArray s" using main by blast
  {
    assume "i < holesInCol s j"
    then have "tileArray s ! i ! j \<in> topTiles s gridSize" unfolding topTiles_def using j by blast
    then show "refilled s (tileHeap ?s' (tileArray s ! i ! j))" using main by blast
  }
  {
    assume h: "holesInCol s j \<le> i"
    have "tileArray s ! i ! j \<notin> topTiles s gridSize"
    proof
      assume "tileArray s ! i ! j \<in> topTiles s gridSize"
      then obtain i' j' where q: "tileArray s ! i ! j = tileArray s ! i' ! j'" "j' < gridSize"
          "i' < holesInCol s j'" unfolding topTiles_def by blast
      have "i' < gridSize" using q(3) holesInCol_le [of s j'] by simp
      then have "i = i' \<and> j = j'" using tilesDistinct_nth [OF d i j _ q(2) q(1)] by simp
      then show False using q(3) h by simp
    qed
    then show "tileHeap ?s' (tileArray s ! i ! j) = tileHeap s (tileArray s ! i ! j)"
      using main by blast
  }
qed

text \<open>
  C10. \<open>replenishField\<close> leaves the array of tile objects as it is and rewrites exactly the
  tiles of the topmost \<open>holesInCol s j\<close> cells of each column \<open>j\<close>, wherever the holes of
  that column are: given enough pooled sprites, each of those tiles ends occupied, with a
  colour in range and a pooled sprite, and every tile below them is untouched. So if the
  holes of every column are its topmost cells the grid has no hole afterwards; if not, a
  hole at or below row \<open>holesInCol s j\<close> is still a hole and an occupied cell above that row
  has been overwritten.
\<close>

theorem refill_topmost:
  assumes "gridOk s" and "tilesDistinct s" and "totalHoles s \<le> length (poolArray s)"
  shows "tileArray (replenishField s) = tileArray s
       \<and> (\<forall>i<gridSize. \<forall>j<gridSize.
             (i < holesInCol s j \<longrightarrow> refilled s (tileHeap (replenishField s) (tileArray s ! i ! j)))
           \<and> (holesInCol s j \<le> i \<longrightarrow>
                tileHeap (replenishField s) (tileArray s ! i ! j) = tileHeap s (tileArray s ! i ! j)))
       \<and> (holesOnTop s \<longrightarrow> noHoles (replenishField s))
       \<and> (\<forall>i<gridSize. \<forall>j<gridSize. emptyAt s i j \<and> holesInCol s j \<le> i \<longrightarrow>
             emptyAt (replenishField s) i j)
       \<and> (\<forall>i<gridSize. \<forall>j<gridSize. \<not> emptyAt s i j \<and> i < holesInCol s j \<longrightarrow>
             tileSprite (tileHeap (replenishField s) (tileArray s ! i ! j)) \<in> set (poolArray s))"
proof -
  let ?s' = "replenishField s"
  note cells = replenishField_cells [OF assms]
  have ta: "tileArray ?s' = tileArray s" using cells(1) [of 0 0] gridSize_pos by simp
  have top: "\<And>i j. i < gridSize \<Longrightarrow> j < gridSize \<Longrightarrow> i < holesInCol s j \<Longrightarrow>
      refilled s (tileHeap ?s' (tileArray s ! i ! j))"
    using cells(2) by blast
  have low: "\<And>i j. i < gridSize \<Longrightarrow> j < gridSize \<Longrightarrow> holesInCol s j \<le> i \<Longrightarrow>
      tileHeap ?s' (tileArray s ! i ! j) = tileHeap s (tileArray s ! i ! j)"
    using cells(3) by blast
  have full: "noHoles ?s'" if h: "holesOnTop s"
    unfolding noHoles_def list_all_iff
  proof (intro ballI)
    fix i j assume "i \<in> set [0..<gridSize]" "j \<in> set [0..<gridSize]"
    then have ij: "i < gridSize" "j < gridSize" by simp_all
    have onTop: "emptyAt s i j \<longleftrightarrow> i < holesInCol s j"
      using h ij unfolding holesOnTop_def list_all_iff by simp
    show "\<not> emptyAt ?s' i j"
    proof (cases "i < holesInCol s j")
      case True
      then show ?thesis using top [OF ij] by (simp add: emptyAt_def ta refilled_def)
    next
      case False
      then show ?thesis using low [OF ij] onTop by (simp add: emptyAt_def ta)
    qed
  qed
  have surv: "\<And>i j. i < gridSize \<Longrightarrow> j < gridSize \<Longrightarrow> emptyAt s i j \<and> holesInCol s j \<le> i \<Longrightarrow>
      emptyAt ?s' i j"
    using low by (simp add: emptyAt_def ta)
  have over: "\<And>i j. i < gridSize \<Longrightarrow> j < gridSize \<Longrightarrow> \<not> emptyAt s i j \<and> i < holesInCol s j \<Longrightarrow>
      tileSprite (tileHeap ?s' (tileArray s ! i ! j)) \<in> set (poolArray s)"
    using top by (simp add: refilled_def)
  show ?thesis using ta top low full surv over by blast
qed

theorem refill_topmost_witness:
  "gridOk toppedScene \<and> tilesDistinct toppedScene
   \<and> totalHoles toppedScene \<le> length (poolArray toppedScene)
   \<and> holesOnTop toppedScene \<and> emptyAt toppedScene 1 0
   \<and> noHoles (replenishField toppedScene)
   \<and> gridOk pooledScene \<and> tilesDistinct pooledScene
   \<and> totalHoles pooledScene \<le> length (poolArray pooledScene)
   \<and> \<not> holesOnTop pooledScene \<and> holesInCol pooledScene 0 = 1
   \<and> emptyAt pooledScene 3 0 \<and> emptyAt (replenishField pooledScene) 3 0
   \<and> \<not> emptyAt pooledScene 0 0
   \<and> tileSprite (tileHeap (replenishField pooledScene) (tileArray pooledScene ! 0 ! 0)) = 49"
proof -
  have a: "gridOk toppedScene" "tilesDistinct toppedScene"
      "totalHoles toppedScene \<le> length (poolArray toppedScene)" by code_simp+
  have a': "holesOnTop toppedScene" "emptyAt toppedScene 1 0" by code_simp+
  have b: "gridOk pooledScene" "tilesDistinct pooledScene"
      "totalHoles pooledScene \<le> length (poolArray pooledScene)" by code_simp+
  have b': "\<not> holesOnTop pooledScene" "holesInCol pooledScene 0 = 1" "emptyAt pooledScene 3 0"
      "\<not> emptyAt pooledScene 0 0" "set (poolArray pooledScene) = {49}" by code_simp+
  have n: "(0::nat) < gridSize" "(3::nat) < gridSize" by (simp_all add: gridSize_def)
  have full: "noHoles (replenishField toppedScene)"
    using refill_topmost [OF a] a' by blast
  note inst = refill_topmost [OF b]
  have hole: "emptyAt (replenishField pooledScene) 3 0"
    using inst n b'(2,3) by simp
  have "tileSprite (tileHeap (replenishField pooledScene) (tileArray pooledScene ! 0 ! 0))
      \<in> set (poolArray pooledScene)"
    using inst n b'(2,4) by simp
  then have over: "tileSprite (tileHeap (replenishField pooledScene) (tileArray pooledScene ! 0 ! 0)) = 49"
    unfolding b'(5) by simp
  show ?thesis using a a' b b' full hole over by simp
qed

section \<open>Swap and revert\<close>

lemma setTile_proj [simp]:
  "tileArray (setTile t f s) = tileArray s" "spriteHeap (setTile t f s) = spriteHeap s"
  "tweens (setTile t f s) = tweens s" "canPick (setTile t f s) = canPick s"
  "tileHeap (setTile t f s) = (tileHeap s)(t := f (tileHeap s t))"
  by (simp_all add: setTile_def)

lemma setSprite_proj [simp]:
  "tileArray (setSprite p f s) = tileArray s" "tileHeap (setSprite p f s) = tileHeap s"
  "tweens (setSprite p f s) = tweens s" "canPick (setSprite p f s) = canPick s"
  "spriteHeap (setSprite p f s) = (spriteHeap s)(p := f (spriteHeap s p))"
  by (simp_all add: setSprite_def)

lemma addTween_proj [simp]:
  "tileArray (addTween tw s) = tileArray s" "tileHeap (addTween tw s) = tileHeap s"
  "spriteHeap (addTween tw s) = spriteHeap s" "canPick (addTween tw s) = canPick s"
  "tweens (addTween tw s) = tweens s @ [tw]"
  by (simp_all add: addTween_def)

lemma gridOk_cong: "tileArray s' = tileArray s \<Longrightarrow> gridOk s' = gridOk s"
  by (simp add: gridOk_def)

lemma cellAt_in:
  "gridOk s \<Longrightarrow> i < gridSize \<Longrightarrow> j < gridSize \<Longrightarrow> cellAt s (int i) (int j) = Some (tileArray s ! i ! j)"
  by (simp add: cellAt_def gridOk_def list_all_length)

lemma swapTiles_aligned:
  assumes g: "gridOk s" and r: "r1 < gridSize" "c1 < gridSize" "r2 < gridSize" "c2 < gridSize"
    and t: "tileArray s ! r1 ! c1 = t1" "tileArray s ! r2 ! c2 = t2" "t1 \<noteq> t2"
    and p1: "getTileRow s t1 = int r1" "getTileCol s t1 = int c1"
    and p2: "getTileRow s t2 = int r2" "getTileCol s t2 = int c2"
  shows "swapTiles s t1 t2 sb =
     Some (s\<lparr>swappingTiles := 2, canPick := False, tileHeap := swappedHeap s t1 t2,
              tweens := tweens s @
                [swapTween (tileSprite (tileHeap s t1)) r2 c2 (SwapDone t1 t2 sb),
                 swapTween (tileSprite (tileHeap s t2)) r1 c1 (SwapDone t2 t1 sb)]\<rparr>)"
proof -
  let ?s1 = "s\<lparr>swappingTiles := 2, canPick := False\<rparr>"
  have g1: "gridOk ?s1" using g by (simp add: gridOk_def)
  have q1: "getTileRow ?s1 t1 = int r1" "getTileCol ?s1 t1 = int c1"
      "getTileRow ?s1 t2 = int r2" "getTileCol ?s1 t2 = int c2"
    using p1 p2 by (simp_all add: getTileRow_def getTileCol_def)
  have c1: "cellAt ?s1 (int r1) (int c1) = Some t1"
    using cellAt_in [OF g1 r(1,2)] t(1) by simp
  let ?s2 = "setTile t1 (\<lambda>x. x\<lparr>color := color (tileHeap ?s1 t2), tileSprite := tileSprite (tileHeap ?s1 t2)\<rparr>) ?s1"
  have g2: "gridOk ?s2" using g by (simp add: gridOk_def)
  have c2: "cellAt ?s2 (int r2) (int c2) = Some t2"
    using cellAt_in [OF g2 r(3,4)] t(2) by simp
  let ?s3 = "setTile t2 (\<lambda>x. x\<lparr>color := color (tileHeap ?s1 t1), tileSprite := tileSprite (tileHeap ?s1 t1)\<rparr>) ?s2"
  have g3: "gridOk ?s3" using g by (simp add: gridOk_def)
  have h3: "tileHeap ?s3 = swappedHeap s t1 t2"
    using t(3) by (simp add: setTile_def swappedHeap_def fun_eq_iff)
  have pos3: "getTileRow ?s3 t1 = int r2" "getTileCol ?s3 t1 = int c2"
       "getTileRow ?s3 t2 = int r1" "getTileCol ?s3 t2 = int c1"
    using p1 p2 t(3) by (simp_all add: getTileRow_def getTileCol_def setTile_def)
  have c3: "cellAt ?s3 (int r2) (int c2) = Some t2" "cellAt ?s3 (int r1) (int c1) = Some t1"
    using cellAt_in [OF g3 r(3,4)] cellAt_in [OF g3 r(1,2)] t(1,2) by simp_all
  have tw1: "tweenTile ?s3 t1 t2 sb =
      Some (addTween (swapTween (tileSprite (tileHeap s t1)) r2 c2 (SwapDone t1 t2 sb)) ?s3)"
    unfolding tweenTile_def pos3 Let_def c3 using t(3) by (simp add: swapTween_def setTile_def)
  let ?s4 = "addTween (swapTween (tileSprite (tileHeap s t1)) r2 c2 (SwapDone t1 t2 sb)) ?s3"
  have pos4: "getTileRow ?s4 t2 = int r1" "getTileCol ?s4 t2 = int c1"
    using pos3 by (simp_all add: getTileRow_def getTileCol_def addTween_def)
  have g4: "gridOk ?s4" using g by (simp add: gridOk_def)
  have c4: "cellAt ?s4 (int r1) (int c1) = Some t1"
    using cellAt_in [OF g4 r(1,2)] t(1) by simp
  have tw2: "tweenTile ?s4 t2 t1 sb =
      Some (addTween (swapTween (tileSprite (tileHeap s t2)) r1 c1 (SwapDone t2 t1 sb)) ?s4)"
    unfolding tweenTile_def pos4 Let_def c4 using t(3) by (simp add: swapTween_def setTile_def addTween_def)
  have "swapTiles s t1 t2 sb =
      Some (addTween (swapTween (tileSprite (tileHeap s t2)) r1 c1 (SwapDone t2 t1 sb)) ?s4)"
    unfolding swapTiles_def Let_def q1 c1 option.case c2 tw1 tw2 ..
  also have "addTween (swapTween (tileSprite (tileHeap s t2)) r1 c1 (SwapDone t2 t1 sb)) ?s4
     = s\<lparr>swappingTiles := 2, canPick := False, tileHeap := swappedHeap s t1 t2,
              tweens := tweens s @
                [swapTween (tileSprite (tileHeap s t1)) r2 c2 (SwapDone t1 t2 sb),
                 swapTween (tileSprite (tileHeap s t2)) r1 c1 (SwapDone t2 t1 sb)]\<rparr>"
    unfolding h3 [symmetric] by (simp add: addTween_def setTile_def)
  finally show ?thesis .
qed

lemma centre_div: "(int r * tileSize + tileSize div 2) div tileSize = int r"
  by (simp add: tileSize_def)

lemma swap_lands:
  assumes g: "gridOk s" and r: "r1 < gridSize" "c1 < gridSize" "r2 < gridSize" "c2 < gridSize"
    and t: "tileArray s ! r1 ! c1 = t1" "tileArray s ! r2 ! c2 = t2" "t1 \<noteq> t2"
    and p1: "getTileRow s t1 = int r1" "getTileCol s t1 = int c1"
    and p2: "getTileRow s t2 = int r2" "getTileCol s t2 = int c2"
    and idle: "tweens s = []"
    and sw: "swapTiles s t1 t2 sb = Some sA"
  shows "\<exists>sB. tweenComplete 0 sA = Some sB
      \<and> tweenComplete 0 sB = swapDone t2 t1 sb ((landed s r1 c1 r2 c2)\<lparr>swappingTiles := 1\<rparr>)"
proof -
  let ?p1 = "tileSprite (tileHeap s t1)" and ?p2 = "tileSprite (tileHeap s t2)"
  let ?A = "swapTween ?p1 r2 c2 (SwapDone t1 t2 sb)"
  let ?B = "swapTween ?p2 r1 c1 (SwapDone t2 t1 sb)"
  have sA: "sA = s\<lparr>swappingTiles := 2, canPick := False, tileHeap := swappedHeap s t1 t2,
              tweens := [?A, ?B]\<rparr>"
    using swapTiles_aligned [OF g r t p1 p2, of sb] sw idle by simp
  have ne: "?p1 \<noteq> ?p2"
  proof
    assume "?p1 = ?p2"
    then have "int r1 = int r2 \<and> int c1 = int c2"
      using p1 p2 by (simp add: getTileRow_def getTileCol_def)
    then show False using t by auto
  qed
  define sB where "sB = sA\<lparr>spriteHeap := (spriteHeap s)
        (?p1 := (spriteHeap s ?p1)\<lparr>sx := int c2 * tileSize + tileSize div 2,
                                     sy := int r2 * tileSize + tileSize div 2\<rparr>),
      tweens := [?B], swappingTiles := 1\<rparr>"
  have one: "tweenComplete 0 sA = Some sB"
    unfolding sB_def sA
    by (simp add: tweenComplete_def Let_def runCallback_def swapDone_def applyTween_def
        swapTween_def setSprite_def)
  define Z where "Z = (setSprite ?p2 (applyTween ?B) sB)\<lparr>tweens := []\<rparr>"
  have "tweenComplete 0 sB = swapDone t2 t1 sb Z"
    unfolding Z_def by (simp add: sB_def sA tweenComplete_def Let_def runCallback_def swapTween_def)
  moreover have "Z = (landed s r1 c1 r2 c2)\<lparr>swappingTiles := 1\<rparr>"
    unfolding Z_def sB_def sA landed_def Let_def t
    using ne by (simp add: applyTween_def swapTween_def setSprite_def fun_upd_twist)
  ultimately have two: "tweenComplete 0 sB = swapDone t2 t1 sb ((landed s r1 c1 r2 c2)\<lparr>swappingTiles := 1\<rparr>)"
    by simp
  show ?thesis using one two by blast
qed

lemma aligned_nth:
  "aligned s \<Longrightarrow> i < gridSize \<Longrightarrow> j < gridSize \<Longrightarrow>
   getTileRow s (tileArray s ! i ! j) = int i \<and> getTileCol s (tileArray s ! i ! j) = int j"
  by (simp add: aligned_def list_all_iff)

lemma matchInBoard_colors:
  assumes "\<And>i j. colorAt s' i j = colorAt s i j"
  shows "matchInBoard s' = matchInBoard s"
proof -
  have "colorAt s' = colorAt s" using assms by (simp add: fun_eq_iff)
  then show ?thesis unfolding matchInBoard_iff onHorizontalRun_def onVerticalRun_def by simp
qed

lemma swappedHeap_back:
  assumes "t1 \<noteq> t2" "tileHeap s' = swappedHeap s t1 t2"
  shows "swappedHeap s' t2 t1 = tileHeap s"
  using assms by (auto simp: swappedHeap_def fun_eq_iff)

lemma landed_proj:
  "tileArray (landed s r1 c1 r2 c2) = tileArray s"
  "tweens (landed s r1 c1 r2 c2) = []"
  "canPick (landed s r1 c1 r2 c2) = False"
  "tileHeap (landed s r1 c1 r2 c2) = swappedHeap s (tileArray s ! r1 ! c1) (tileArray s ! r2 ! c2)"
  by (simp_all add: landed_def Let_def)

lemma landed_positions:
  assumes t: "tileArray s ! r1 ! c1 = t1" "tileArray s ! r2 ! c2 = t2" "t1 \<noteq> t2"
    and ne: "tileSprite (tileHeap s t1) \<noteq> tileSprite (tileHeap s t2)"
  shows "getTileRow (landed s r1 c1 r2 c2) t1 = int r1" "getTileCol (landed s r1 c1 r2 c2) t1 = int c1"
    "getTileRow (landed s r1 c1 r2 c2) t2 = int r2" "getTileCol (landed s r1 c1 r2 c2) t2 = int c2"
  using t(3) ne unfolding landed_def Let_def t getTileRow_def getTileCol_def
  by (simp_all add: swappedHeap_def centre_div)

text \<open>
  C4. In a settled scene at rest (grid in shape, distinct tile objects, every sprite in
  its cell, no tween pending), take two different cells whose swap makes no match. After
  \<open>swapTiles\<close> with \<open>swapBack = true\<close> the two colours are exchanged; when its two tweens
  have completed, the callback calls \<open>swapTiles\<close> again with \<open>swapBack = false\<close>, and from
  that call on every cell has the colour it had before the swap; when the two tweens of
  the revert have completed the scene accepts input again, with the tile store it had.
\<close>

theorem swap_revert_round_trip:
  assumes "gridOk s" and "tilesDistinct s" and "aligned s" and "tweens s = []"
    and "\<not> matchInBoard s"
    and "r1 < gridSize" and "c1 < gridSize" and "r2 < gridSize" and "c2 < gridSize"
    and "(r1, c1) \<noteq> (r2, c2)"
    and "swapTiles s (tileArray s ! r1 ! c1) (tileArray s ! r2 ! c2) True = Some sA"
    and "\<not> matchInBoard sA"
  shows "\<exists>sB sC sD sE.
           tweenComplete 0 sA = Some sB \<and> tweenComplete 0 sB = Some sC
         \<and> tweenComplete 0 sC = Some sD \<and> tweenComplete 0 sD = Some sE
         \<and> colorAt sA r1 c1 = colorAt s r2 c2 \<and> colorAt sA r2 c2 = colorAt s r1 c1
         \<and> \<not> canPick sC \<and> length (tweens sC) = 2
         \<and> (\<forall>i<gridSize. \<forall>j<gridSize. colorAt sC i j = colorAt s i j)
         \<and> (\<forall>i<gridSize. \<forall>j<gridSize. colorAt sE i j = colorAt s i j)
         \<and> canPick sE \<and> selectedTile sE = None \<and> tweens sE = []
         \<and> tileArray sE = tileArray s \<and> tileHeap sE = tileHeap s"
proof -
  let ?t1 = "tileArray s ! r1 ! c1" and ?t2 = "tileArray s ! r2 ! c2"
  note g = assms(1) and r = assms(6-9)
  have ne: "?t1 \<noteq> ?t2"
    using tilesDistinct_nth [OF assms(2) r(1,2) r(3,4)] assms(10) by auto
  have p1: "getTileRow s ?t1 = int r1" "getTileCol s ?t1 = int c1"
    using aligned_nth [OF assms(3) r(1,2)] by simp_all
  have p2: "getTileRow s ?t2 = int r2" "getTileCol s ?t2 = int c2"
    using aligned_nth [OF assms(3) r(3,4)] by simp_all
  have sne: "tileSprite (tileHeap s ?t1) \<noteq> tileSprite (tileHeap s ?t2)"
  proof
    assume "tileSprite (tileHeap s ?t1) = tileSprite (tileHeap s ?t2)"
    then have "int r1 = int r2 \<and> int c1 = int c2"
      using p1 p2 by (simp add: getTileRow_def getTileCol_def)
    then show False using assms(10) by simp
  qed
  have sA: "sA = s\<lparr>swappingTiles := 2, canPick := False, tileHeap := swappedHeap s ?t1 ?t2,
              tweens := tweens s @
                [swapTween (tileSprite (tileHeap s ?t1)) r2 c2 (SwapDone ?t1 ?t2 True),
                 swapTween (tileSprite (tileHeap s ?t2)) r1 c1 (SwapDone ?t2 ?t1 True)]\<rparr>"
    using swapTiles_aligned [OF g r refl refl ne p1 p2, of True] assms(11) by simp
  have swapA: "colorAt sA r1 c1 = colorAt s r2 c2" "colorAt sA r2 c2 = colorAt s r1 c1"
    using ne unfolding sA by (simp_all add: colorAt_def swappedHeap_def)
  from swap_lands [OF g r refl refl ne p1 p2 assms(4) assms(11)] obtain sB where
    sB: "tweenComplete 0 sA = Some sB"
    and cb: "tweenComplete 0 sB = swapDone ?t2 ?t1 True ((landed s r1 c1 r2 c2)\<lparr>swappingTiles := 1\<rparr>)"
    by blast
  define L where "L = (landed s r1 c1 r2 c2)\<lparr>swappingTiles := 0\<rparr>"
  have colL: "\<And>i j. colorAt L i j = colorAt sA i j"
    unfolding L_def sA by (simp add: colorAt_def landed_proj)
  have mL: "\<not> matchInBoard L" using matchInBoard_colors [of L sA] colL assms(12) by simp
  have cb2: "tweenComplete 0 sB = swapTiles L ?t2 ?t1 False"
    unfolding cb swapDone_def Let_def using mL by (simp add: L_def)
  have gL: "gridOk L" using g by (simp add: L_def gridOk_def landed_proj)
  have taL: "tileArray L = tileArray s" by (simp add: L_def landed_proj)
  have twL: "tweens L = []" by (simp add: L_def landed_proj)
  have hL: "tileHeap L = swappedHeap s ?t1 ?t2" by (simp add: L_def landed_proj)
  have posL: "getTileRow L ?t2 = int r2" "getTileCol L ?t2 = int c2"
      "getTileRow L ?t1 = int r1" "getTileCol L ?t1 = int c1"
    using landed_positions [OF refl refl ne sne]
    by (simp_all add: L_def getTileRow_def getTileCol_def)
  have tL: "tileArray L ! r2 ! c2 = ?t2" "tileArray L ! r1 ! c1 = ?t1" "?t2 \<noteq> ?t1"
    using ne by (simp_all add: taL)
  define sC where "sC = L\<lparr>swappingTiles := 2, canPick := False, tileHeap := swappedHeap L ?t2 ?t1,
              tweens := tweens L @
                [swapTween (tileSprite (tileHeap L ?t2)) r1 c1 (SwapDone ?t2 ?t1 False),
                 swapTween (tileSprite (tileHeap L ?t1)) r2 c2 (SwapDone ?t1 ?t2 False)]\<rparr>"
  have swC: "swapTiles L ?t2 ?t1 False = Some sC"
    unfolding sC_def by (rule swapTiles_aligned [OF gL r(3,4) r(1,2) tL posL(1,2) posL(3,4)])
  have hC: "tileHeap sC = tileHeap s"
    unfolding sC_def using swappedHeap_back [OF ne hL] by simp
  have taC: "tileArray sC = tileArray s" by (simp add: sC_def taL)
  have colC: "\<forall>i<gridSize. \<forall>j<gridSize. colorAt sC i j = colorAt s i j"
    by (simp add: colorAt_def hC taC)
  have pickC: "\<not> canPick sC" "length (tweens sC) = 2" by (simp_all add: sC_def twL)
  from swap_lands [OF gL r(3,4) r(1,2) tL posL(1,2) posL(3,4) twL swC] obtain sD where
    sD: "tweenComplete 0 sC = Some sD"
    and cbD: "tweenComplete 0 sD = swapDone ?t1 ?t2 False ((landed L r2 c2 r1 c1)\<lparr>swappingTiles := 1\<rparr>)"
    unfolding taL by blast
  define M where "M = (landed L r2 c2 r1 c1)\<lparr>swappingTiles := 0\<rparr>"
  have hM: "tileHeap M = tileHeap s"
    unfolding M_def using swappedHeap_back [OF ne hL] by (simp add: landed_proj taL)
  have taM: "tileArray M = tileArray s" by (simp add: M_def landed_proj taL)
  have colM: "\<And>i j. colorAt M i j = colorAt s i j" by (simp add: colorAt_def hM taM)
  have mM: "\<not> matchInBoard M" using matchInBoard_colors [of M s] colM assms(5) by simp
  define sE where "sE = M\<lparr>canPick := True, selectedTile := None\<rparr>"
  have cbE: "tweenComplete 0 sD = Some sE"
    unfolding cbD swapDone_def Let_def sE_def using mM by (simp add: M_def)
  have endE: "\<forall>i<gridSize. \<forall>j<gridSize. colorAt sE i j = colorAt s i j"
      "canPick sE" "selectedTile sE = None" "tweens sE = []"
      "tileArray sE = tileArray s" "tileHeap sE = tileHeap s"
    using colM hM taM by (simp_all add: sE_def colorAt_def M_def landed_proj)
  show ?thesis
    using sB cb2 swC sD cbE swapA pickC colC endE by (intro exI [of _ sB] exI [of _ sC] exI [of _ sD] exI [of _ sE]) simp
qed

theorem swap_revert_round_trip_witness:
  "gridOk idleScene \<and> tilesDistinct idleScene \<and> aligned idleScene \<and> tweens idleScene = []
   \<and> \<not> matchInBoard idleScene
   \<and> (\<exists>sA sB sC sD sE.
         swapTiles idleScene (tileArray idleScene ! 0 ! 0) (tileArray idleScene ! 0 ! 1) True = Some sA
       \<and> \<not> matchInBoard sA
       \<and> tweenComplete 0 sA = Some sB \<and> tweenComplete 0 sB = Some sC
       \<and> tweenComplete 0 sC = Some sD \<and> tweenComplete 0 sD = Some sE
       \<and> colorAt idleScene 0 0 = 0 \<and> colorAt idleScene 0 1 = 1
       \<and> colorAt sA 0 0 = 1 \<and> colorAt sA 0 1 = 0
       \<and> colorAt sC 0 0 = 0 \<and> colorAt sC 0 1 = 1
       \<and> colorAt sE 0 0 = 0 \<and> colorAt sE 0 1 = 1
       \<and> canPick sE \<and> tweens sE = [])"
proof -
  have a: "gridOk idleScene" "tilesDistinct idleScene" "aligned idleScene" "tweens idleScene = []"
      "\<not> matchInBoard idleScene" by code_simp+
  have n: "(0::nat) < gridSize" "(1::nat) < gridSize" "((0::nat), (0::nat)) \<noteq> (0, 1)"
    by (simp_all add: gridSize_def)
  have c: "colorAt idleScene 0 0 = 0" "colorAt idleScene 0 1 = 1" by code_simp+
  have "map_option matchInBoard
      (swapTiles idleScene (tileArray idleScene ! 0 ! 0) (tileArray idleScene ! 0 ! 1) True) = Some False"
    by code_simp
  then obtain sA where
    sA: "swapTiles idleScene (tileArray idleScene ! 0 ! 0) (tileArray idleScene ! 0 ! 1) True = Some sA"
      "\<not> matchInBoard sA" by auto
  from swap_revert_round_trip [OF a n(1) n(1) n(1) n(2) n(3) sA]
  obtain sB sC sD sE where
    "tweenComplete 0 sA = Some sB" "tweenComplete 0 sB = Some sC"
    "tweenComplete 0 sC = Some sD" "tweenComplete 0 sD = Some sE"
    "colorAt sA 0 0 = colorAt idleScene 0 1" "colorAt sA 0 1 = colorAt idleScene 0 0"
    "\<forall>i<gridSize. \<forall>j<gridSize. colorAt sC i j = colorAt idleScene i j"
    "\<forall>i<gridSize. \<forall>j<gridSize. colorAt sE i j = colorAt idleScene i j"
    "canPick sE" "tweens sE = []"
    by blast
  then show ?thesis using a c n sA by (intro conjI exI [of _ sA] exI [of _ sB] exI [of _ sC] exI [of _ sD] exI [of _ sE]) simp_all
qed

end
